theory Spec2Isabelle
  imports Main "HOL-Library.Signed_Division"
begin

section \<open>Failures and raw arrays\<close>

text \<open>
  The C++ of \<^verbatim>\<open>Vector.h\<close> works on raw arrays obtained from \<^verbatim>\<open>new T[n]\<close>.
  Every way in which a call can fail to return normally is a value of \<open>fault\<close>:
  \<^item> \<open>UndefinedBehaviour\<close>: an array is read or written outside its bounds, a range
    handed to \<^verbatim>\<open>std::copy\<close> is not inside its array, or a stream read
    delivers no object of the requested type (the variable stays indeterminate);
  \<^item> \<open>AssertionFailed\<close>: an \<^verbatim>\<open>assert\<close> is violated (asserts are compiled in);
  \<^item> \<open>ProcessExit\<close>: the code calls \<^verbatim>\<open>exit(-1)\<close>;
  \<^item> \<open>BadArrayNewLength\<close>: \<^verbatim>\<open>new T[n]\<close> with negative \<open>n\<close> throws.
  The numeric type \<open>T\<close> of the templates is a type variable, with the arithmetic of
  its type class. Where the code computes in \<^verbatim>\<open>double\<close> (the accumulator of
  \<^verbatim>\<open>dot\<close>, the factor of \<^verbatim>\<open>addToSelf\<close>, the constant of
  \<^verbatim>\<open>ebeAddConstantToSelf\<close>), the model computes in a second type, with the
  operations and conversions of \<open>double_arith\<close> below. C++ \<^verbatim>\<open>int\<close> is
  \<open>int\<close>; \<^verbatim>\<open>allocate\<close> computes \<^verbatim>\<open>(sizeRequired * 3) / 2 + 1\<close> in 32-bit
  \<^verbatim>\<open>int\<close>, and a result outside the range of \<^verbatim>\<open>int\<close> is undefined behaviour
  (\<open>int_result\<close>). The other computations on \<^verbatim>\<open>int\<close>,
  \<^verbatim>\<open>nbActive + 1\<close>, \<^verbatim>\<open>nbActive - 1\<close> and \<^verbatim>\<open>position + 1\<close>, stay in
  range wherever that product does.
\<close>

datatype fault = UndefinedBehaviour | AssertionFailed | ProcessExit | BadArrayNewLength

definition andThen :: "fault + 'a \<Rightarrow> ('a \<Rightarrow> fault + 'b) \<Rightarrow> fault + 'b" where
  "andThen m f = (case m of Inl e \<Rightarrow> Inl e | Inr x \<Rightarrow> f x)"

text \<open>
  The value of an arithmetic expression of type \<^verbatim>\<open>int\<close> (32 bits) whose exact
  result is \<open>x\<close>: signed overflow is undefined behaviour.
\<close>

definition int_result :: "int \<Rightarrow> fault + int" where
  "int_result x =
     (if - 2147483648 \<le> x \<and> x \<le> 2147483647 then Inr x else Inl UndefinedBehaviour)"

text \<open>\<^verbatim>\<open>a[i]\<close> as an rvalue and \<^verbatim>\<open>a[i] = v\<close>, on an array of \<open>length a\<close> cells.\<close>

definition rd :: "'a list \<Rightarrow> int \<Rightarrow> fault + 'a" where
  "rd a i = (if 0 \<le> i \<and> i < int (length a) then Inr (a ! nat i) else Inl UndefinedBehaviour)"

definition wr :: "'a list \<Rightarrow> int \<Rightarrow> 'a \<Rightarrow> fault + 'a list" where
  "wr a i v = (if 0 \<le> i \<and> i < int (length a) then Inr (a[nat i := v]) else Inl UndefinedBehaviour)"

text \<open>\<^verbatim>\<open>new T[n]\<close>: \<open>n\<close> cells of indeterminate content, given by \<open>junk\<close>.\<close>

definition new_array :: "int \<Rightarrow> (nat \<Rightarrow> 'a) \<Rightarrow> fault + 'a list" where
  "new_array n junk = (if n < 0 then Inl BadArrayNewLength else Inr (map junk [0..<nat n]))"

text \<open>\<^verbatim>\<open>std::copy(src, src + n, dst)\<close>: the first \<open>n\<close> cells of \<open>dst\<close> become those of \<open>src\<close>.\<close>

definition copy_into :: "'a list \<Rightarrow> int \<Rightarrow> 'a list \<Rightarrow> fault + 'a list" where
  "copy_into src n dst =
     (if 0 \<le> n \<and> n \<le> int (length src) \<and> n \<le> int (length dst)
      then Inr (take (nat n) src @ drop (nat n) dst)
      else Inl UndefinedBehaviour)"

text \<open>\<^verbatim>\<open>std::fill(a + lo, a + hi, v)\<close>.\<close>

definition fill_range :: "'a list \<Rightarrow> int \<Rightarrow> int \<Rightarrow> 'a \<Rightarrow> fault + 'a list" where
  "fill_range a lo hi v =
     (if 0 \<le> lo \<and> lo \<le> hi \<and> hi \<le> int (length a)
      then Inr (take (nat lo) a @ replicate (nat (hi - lo)) v @ drop (nat hi) a)
      else Inl UndefinedBehaviour)"

text \<open>
  \<^verbatim>\<open>for (int i = lo; i < hi; i++) body\<close>, where the body neither changes \<open>i\<close> nor the
  bound; a fault in the body ends the loop.
\<close>

function for_loop :: "int \<Rightarrow> int \<Rightarrow> (int \<Rightarrow> 's \<Rightarrow> fault + 's) \<Rightarrow> 's \<Rightarrow> fault + 's" where
  "for_loop i hi body s =
     (if i < hi
      then (case body i s of Inl e \<Rightarrow> Inl e | Inr s' \<Rightarrow> for_loop (i + 1) hi body s')
      else Inr s)"
  by pat_completeness auto
termination
  by (relation "measure (\<lambda>(i, hi, body, s). nat (hi - i))") auto

declare for_loop.simps [simp del]

section \<open>SparseVector\<close>

text \<open>
  The fields of the class. An array is the list of its cells: the length of the list is
  the size of the allocated block, which \<open>indexesPositionLength\<close> and
  \<open>activeIndexesLength\<close> announce.
\<close>

record 'a SparseVector =
  indexesPositionLength :: int
  activeIndexesLength :: int
  nbActive :: int
  indexesPosition :: "int list"
  activeIndexes :: "int list"
  "values" :: "'a list"

text \<open>The constructor \<^verbatim>\<open>SparseVector(capacity, activeIndexesLength)\<close>.\<close>

definition SparseVector_new ::
    "int \<Rightarrow> int \<Rightarrow> (nat \<Rightarrow> int) \<Rightarrow> (nat \<Rightarrow> 'a) \<Rightarrow> fault + 'a SparseVector" where
  "SparseVector_new capacity len junkI junkV =
     andThen (new_array capacity junkI) (\<lambda>ip0.
     andThen (new_array len junkI) (\<lambda>ai.
     andThen (new_array len junkV) (\<lambda>vs.
     andThen (fill_range ip0 0 capacity (- 1)) (\<lambda>ip.
     Inr \<lparr>indexesPositionLength = capacity, activeIndexesLength = len, nbActive = 0,
          indexesPosition = ip, activeIndexes = ai, values = vs\<rparr>))))"

definition dimension :: "'a SparseVector \<Rightarrow> int" where
  "dimension s = indexesPositionLength s"

definition updateEntry :: "'a SparseVector \<Rightarrow> int \<Rightarrow> 'a \<Rightarrow> int \<Rightarrow> fault + 'a SparseVector" where
  "updateEntry s index value position =
     andThen (wr (values s) position value) (\<lambda>vs. Inr (s\<lparr>values := vs\<rparr>))"

definition swapEntry :: "'a SparseVector \<Rightarrow> int \<Rightarrow> int \<Rightarrow> fault + 'a SparseVector" where
  "swapEntry s positionA positionB =
     andThen (rd (activeIndexes s) positionA) (\<lambda>indexA.
     andThen (rd (values s) positionA) (\<lambda>valueA.
     andThen (rd (activeIndexes s) positionB) (\<lambda>indexB.
     andThen (rd (values s) positionB) (\<lambda>valueB.
     andThen (wr (indexesPosition s) indexA positionB) (\<lambda>ip1.
     andThen (wr ip1 indexB positionA) (\<lambda>ip2.
     andThen (wr (activeIndexes s) positionA indexB) (\<lambda>ai1.
     andThen (wr ai1 positionB indexA) (\<lambda>ai2.
     andThen (wr (values s) positionA valueB) (\<lambda>vs1.
     andThen (wr vs1 positionB valueA) (\<lambda>vs2.
     Inr (s\<lparr>indexesPosition := ip2, activeIndexes := ai2, values := vs2\<rparr>)))))))))))"

text \<open>The private \<^verbatim>\<open>removeEntry(position, index)\<close>.\<close>

definition removeEntry_at :: "'a SparseVector \<Rightarrow> int \<Rightarrow> int \<Rightarrow> fault + 'a SparseVector" where
  "removeEntry_at s position index =
     andThen (swapEntry s (nbActive s - 1) position) (\<lambda>s1.
     andThen (rd (activeIndexes s1) (nbActive s1 - 1)) (\<lambda>last.
     andThen (wr (indexesPosition s1) last (- 1)) (\<lambda>ip.
     Inr (s1\<lparr>indexesPosition := ip, nbActive := nbActive s1 - 1\<rparr>))))"

text \<open>The public \<^verbatim>\<open>removeEntry(index)\<close>.\<close>

definition removeEntry :: "'a SparseVector \<Rightarrow> int \<Rightarrow> fault + 'a SparseVector" where
  "removeEntry s index =
     andThen (rd (indexesPosition s) index) (\<lambda>position.
     if position \<noteq> - 1 then removeEntry_at s position index else Inr s)"

text \<open>
  \<^verbatim>\<open>allocate(sizeRequired)\<close>. Every cell of the two new arrays is written by the copy
  or by the fill before the function returns, so their initial content is immaterial.
  The new capacity is computed in \<^verbatim>\<open>int\<close>: \<^verbatim>\<open>sizeRequired * 3\<close> overflows from
  \<^verbatim>\<open>sizeRequired = 715827883\<close> on.
\<close>

definition allocate :: "'a::zero SparseVector \<Rightarrow> int \<Rightarrow> fault + 'a SparseVector" where
  "allocate s sizeRequired =
     (if activeIndexesLength s \<ge> sizeRequired then Inr s
      else
        andThen (int_result (sizeRequired * 3)) (\<lambda>tripled.
        andThen (int_result (tripled sdiv 2 + 1)) (\<lambda>newCapacity.
        andThen (new_array newCapacity (\<lambda>_. 0)) (\<lambda>newActiveIndexes0.
        andThen (new_array newCapacity (\<lambda>_. 0)) (\<lambda>newValues0.
        andThen (copy_into (activeIndexes s) (activeIndexesLength s) newActiveIndexes0) (\<lambda>newActiveIndexes1.
        andThen (fill_range newActiveIndexes1 (activeIndexesLength s) newCapacity 0) (\<lambda>newActiveIndexes.
        andThen (copy_into (values s) (activeIndexesLength s) newValues0) (\<lambda>newValues1.
        andThen (fill_range newValues1 (activeIndexesLength s) newCapacity 0) (\<lambda>newValues.
        Inr (s\<lparr>activeIndexesLength := newCapacity,
                activeIndexes := newActiveIndexes, values := newValues\<rparr>))))))))))"

definition appendEntry :: "'a::zero SparseVector \<Rightarrow> int \<Rightarrow> 'a \<Rightarrow> fault + 'a SparseVector" where
  "appendEntry s index value =
     andThen (allocate s (nbActive s + 1)) (\<lambda>s1.
     andThen (wr (activeIndexes s1) (nbActive s1) index) (\<lambda>ai.
     andThen (wr (values s1) (nbActive s1) value) (\<lambda>vs.
     andThen (wr (indexesPosition s1) index (nbActive s1)) (\<lambda>ip.
     Inr (s1\<lparr>activeIndexes := ai, values := vs, indexesPosition := ip,
              nbActive := nbActive s1 + 1\<rparr>)))))"

definition insertLast :: "'a::zero SparseVector \<Rightarrow> 'a \<Rightarrow> fault + 'a SparseVector" where
  "insertLast s value = appendEntry s (indexesPositionLength s - 1) value"

definition insertEntry :: "'a::zero SparseVector \<Rightarrow> int \<Rightarrow> 'a \<Rightarrow> fault + 'a SparseVector" where
  "insertEntry s index value = appendEntry s index value"

definition getEntry :: "'a::zero SparseVector \<Rightarrow> int \<Rightarrow> fault + 'a" where
  "getEntry s index =
     andThen (rd (indexesPosition s) index) (\<lambda>position.
     if position \<noteq> - 1 then rd (values s) position else Inr 0)"

definition setNonZeroEntry :: "'a::zero SparseVector \<Rightarrow> int \<Rightarrow> 'a \<Rightarrow> fault + 'a SparseVector" where
  "setNonZeroEntry s index value =
     andThen (rd (indexesPosition s) index) (\<lambda>position.
     if position \<noteq> - 1 then updateEntry s index value position
     else insertEntry s index value)"

definition setEntry :: "'a::zero SparseVector \<Rightarrow> int \<Rightarrow> 'a \<Rightarrow> fault + 'a SparseVector" where
  "setEntry s index value =
     (if value = 0 then removeEntry s index else setNonZeroEntry s index value)"

text \<open>
  The arithmetic of \<^verbatim>\<open>double\<close>, as far as the class uses it, on a type \<open>'d\<close> of
  double values: the implicit conversion of a \<open>T\<close> to \<^verbatim>\<open>double\<close> and back, the
  \<^verbatim>\<open>double\<close> zero, and the sum and the product of two doubles. It is a parameter
  of the operations that compute in \<^verbatim>\<open>double\<close>.
\<close>

record ('a, 'd) double_arith =
  to_double :: "'a \<Rightarrow> 'd"
  of_double :: "'d \<Rightarrow> 'a"
  double_zero :: 'd
  double_add :: "'d \<Rightarrow> 'd \<Rightarrow> 'd"
  double_mul :: "'d \<Rightarrow> 'd \<Rightarrow> 'd"

text \<open>
  The arithmetic operations take the other operand \<open>that\<close> as a value: the model is of
  calls whose argument is an object distinct from the receiver. In
  \<^verbatim>\<open>addToSelf(const double& factor, that)\<close> the expression
  \<^verbatim>\<open>getEntry(index) + factor * that.values[position]\<close> is evaluated in
  \<^verbatim>\<open>double\<close>, both \<open>T\<close> operands converted, and the result is converted to
  \<open>T\<close> for \<^verbatim>\<open>setNonZeroEntry(index, const T&)\<close>.
\<close>

definition addToSelf ::
    "('a, 'd) double_arith \<Rightarrow> 'a::zero SparseVector \<Rightarrow> 'd \<Rightarrow> 'a SparseVector \<Rightarrow>
     fault + 'a SparseVector" where
  "addToSelf ar s factor that =
     (if dimension s \<noteq> dimension that then Inl AssertionFailed
      else for_loop 0 (nbActive that) (\<lambda>position s.
             andThen (rd (activeIndexes that) position) (\<lambda>index.
             andThen (getEntry s index) (\<lambda>mine.
             andThen (rd (values that) position) (\<lambda>theirs.
             setNonZeroEntry s index
               (of_double ar (double_add ar (to_double ar mine)
                                (double_mul ar factor (to_double ar theirs)))))))) s)"

text \<open>The \<^verbatim>\<open>while\<close> loop of \<^verbatim>\<open>ebeMultiplyToSelf\<close>, from \<open>position\<close> on.\<close>

function ebeMultiplyToSelf_loop ::
    "'a::{zero,times} SparseVector \<Rightarrow> 'a SparseVector \<Rightarrow> int \<Rightarrow> fault + 'a SparseVector" where
  "ebeMultiplyToSelf_loop s that position =
     (if position < nbActive s then
        (case rd (activeIndexes s) position of Inl e \<Rightarrow> Inl e | Inr index \<Rightarrow>
        (case rd (values s) position of Inl e \<Rightarrow> Inl e | Inr mine \<Rightarrow>
        (case getEntry that index of Inl e \<Rightarrow> Inl e | Inr theirs \<Rightarrow>
         let value = mine * theirs in
         if value \<noteq> 0 then
           (case wr (values s) position value of Inl e \<Rightarrow> Inl e
            | Inr vs \<Rightarrow> ebeMultiplyToSelf_loop (s\<lparr>values := vs\<rparr>) that (position + 1))
         else
           (case removeEntry_at s position index of Inl e \<Rightarrow> Inl e
            | Inr s' \<Rightarrow> ebeMultiplyToSelf_loop s' that position))))
      else Inr s)"
  by pat_completeness auto
termination
  apply (relation "measure (\<lambda>(s, that, position). nat (nbActive s - position))")
    apply simp
   apply simp
  apply (auto simp: removeEntry_at_def swapEntry_def andThen_def split: sum.splits)
  done

declare ebeMultiplyToSelf_loop.simps [simp del]

definition ebeMultiplyToSelf ::
    "'a::{zero,times} SparseVector \<Rightarrow> 'a SparseVector \<Rightarrow> fault + 'a SparseVector" where
  "ebeMultiplyToSelf s that =
     (if dimension s \<noteq> dimension that then Inl AssertionFailed
      else ebeMultiplyToSelf_loop s that 0)"

text \<open>
  \<^verbatim>\<open>ebeAddConstantToSelf(const double& value)\<close>: the sum
  \<^verbatim>\<open>value + getEntry(index)\<close> is formed in \<^verbatim>\<open>double\<close> and converted to \<open>T\<close>.
\<close>

definition ebeAddConstantToSelf ::
    "('a, 'd) double_arith \<Rightarrow> 'a::zero SparseVector \<Rightarrow> 'd \<Rightarrow> fault + 'a SparseVector" where
  "ebeAddConstantToSelf ar s value =
     for_loop 0 (indexesPositionLength s) (\<lambda>index s.
       andThen (getEntry s index) (\<lambda>mine.
       setNonZeroEntry s index (of_double ar (double_add ar value (to_double ar mine))))) s"



text \<open>
  IEEE 754 binary64 with round-to-nearest, ties-to-even, on the doubles whose value is
  an integer (below the overflow threshold \<open>2^1024\<close>): such a double is the integer
  it denotes, and the sum and the product of two of them are the exact sum and product
  rounded to 53 significant bits, again such doubles. \<open>round_binary64 x\<close> is the
  double nearest to the integer \<open>x\<close>. \<open>ulp_of m\<close> is the spacing of the doubles
  around the magnitude \<open>m\<close>: 1 below \<open>2^53 = 9007199254740992\<close>, and doubling with
  every further bit. The magnitude is rounded to a multiple of that spacing, a tie
  going to the even multiple.
\<close>

function ulp_of :: "int \<Rightarrow> int" where
  "ulp_of m = (if m < 9007199254740992 then 1 else 2 * ulp_of (m div 2))"
  by pat_completeness auto
termination
  by (relation "measure nat") auto

declare ulp_of.simps [simp del]

definition round_binary64 :: "int \<Rightarrow> int" where
  "round_binary64 x =
     (let m = \<bar>x\<bar>;
          u = ulp_of m;
          q = m div u;
          r = m mod u;
          q' = (if 2 * r > u \<or> (2 * r = u \<and> odd q) then q + 1 else q)
      in sgn x * (q' * u))"

text \<open>
  \<open>T = long\<close> (64 bits, modelled by \<open>int\<close>; its own sums and products are exact
  while in range) beside \<^verbatim>\<open>double\<close> on integer values: a \<^verbatim>\<open>long\<close> converts to the
  nearest double, and a double whose value is an integer in the range of \<^verbatim>\<open>long\<close>
  converts to that integer.
\<close>

definition long_with_double :: "(int, int) double_arith" where
  "long_with_double =
     \<lparr>to_double = round_binary64,
      of_double = (\<lambda>d. d),
      double_zero = 0,
      double_add = (\<lambda>x y. round_binary64 (x + y)),
      double_mul = (\<lambda>x y. round_binary64 (x * y))\<rparr>"

subsection \<open>Representation invariant and logical value\<close>

text \<open>
  \<open>wf_arrays\<close>: the three arrays have the sizes the length fields announce and
  \<open>nbActive\<close> lies within the active arrays. \<open>position_inv\<close>: every active
  position holds an index of the declared dimension whose recorded position is that
  position. \<open>absent_inv\<close>: every index is either marked absent (\<open>-1\<close>) or its
  recorded position is an active position holding that index. \<open>entry s k\<close> is the
  logical value of the vector at index \<open>k\<close>.
\<close>

definition wf_arrays :: "'a SparseVector \<Rightarrow> bool" where
  "wf_arrays s \<longleftrightarrow>
     0 \<le> indexesPositionLength s \<and> int (length (indexesPosition s)) = indexesPositionLength s \<and>
     0 \<le> nbActive s \<and> nbActive s \<le> activeIndexesLength s \<and>
     int (length (activeIndexes s)) = activeIndexesLength s \<and>
     int (length (values s)) = activeIndexesLength s"

definition position_inv :: "'a SparseVector \<Rightarrow> bool" where
  "position_inv s \<longleftrightarrow>
     (\<forall>i\<in>{0..<nat (nbActive s)}.
        0 \<le> activeIndexes s ! i \<and> activeIndexes s ! i < indexesPositionLength s \<and>
        indexesPosition s ! nat (activeIndexes s ! i) = int i)"

definition absent_inv :: "'a SparseVector \<Rightarrow> bool" where
  "absent_inv s \<longleftrightarrow>
     (\<forall>k\<in>{0..<nat (indexesPositionLength s)}.
        indexesPosition s ! k = - 1 \<or>
        (0 \<le> indexesPosition s ! k \<and> indexesPosition s ! k < nbActive s \<and>
         activeIndexes s ! nat (indexesPosition s ! k) = int k))"

definition sparse_inv :: "'a SparseVector \<Rightarrow> bool" where
  "sparse_inv s \<longleftrightarrow> wf_arrays s \<and> position_inv s \<and> absent_inv s"

definition entry :: "'a::zero SparseVector \<Rightarrow> int \<Rightarrow> 'a" where
  "entry s k = (if indexesPosition s ! nat k = - 1 then 0
                else values s ! nat (indexesPosition s ! nat k))"






text \<open>The active (index, value) pairs, as a set: the first \<open>nbActive\<close> cells of the two
  parallel arrays.\<close>

definition active_pairs :: "'a SparseVector \<Rightarrow> (int \<times> 'a) set" where
  "active_pairs s =
     set (zip (take (nat (nbActive s)) (activeIndexes s)) (take (nat (nbActive s)) (values s)))"

text \<open>No active position stores the value zero.\<close>

definition no_explicit_zero :: "'a::zero SparseVector \<Rightarrow> bool" where
  "no_explicit_zero s \<longleftrightarrow> (\<forall>i\<in>{0..<nat (nbActive s)}. values s ! i \<noteq> 0)"

section \<open>Persistence\<close>

text \<open>
  A file is the sequence of objects that \<^verbatim>\<open>Vector::write\<close> put into it, each either the
  image of an \<^verbatim>\<open>int\<close> or the image of a \<open>T\<close>; the bytes inside one object are not
  modelled. A disk maps file names to files; \<open>writable\<close> tells whether
  \<^verbatim>\<open>ofstream::open\<close> succeeds on a name, and \<^verbatim>\<open>ifstream::open\<close> succeeds exactly on
  the names that have a file. Output to \<^verbatim>\<open>cout\<close>, \<^verbatim>\<open>cerr\<close> and \<^verbatim>\<open>printf\<close> is
  not modelled.
\<close>

datatype 'a cell = IntCell int | ValCell 'a

record 'a disk =
  files :: "string \<Rightarrow> 'a cell list option"
  writable :: "string \<Rightarrow> bool"

text \<open>
  \<^verbatim>\<open>Vector::read\<close> at type \<^verbatim>\<open>int\<close> and at type \<open>T\<close>: the object read and the rest of
  the stream. A read at the end of the stream leaves its variable indeterminate, and
  every caller uses the variable afterwards. A read at a type other than the one the
  object was written at would reinterpret its bytes; since bytes are not modelled, it
  is given the same outcome.
\<close>

definition read_int :: "'a cell list \<Rightarrow> fault + (int \<times> 'a cell list)" where
  "read_int ifs = (case ifs of IntCell i # rest \<Rightarrow> Inr (i, rest) | _ \<Rightarrow> Inl UndefinedBehaviour)"

definition read_val :: "'a cell list \<Rightarrow> fault + ('a \<times> 'a cell list)" where
  "read_val ifs = (case ifs of ValCell v # rest \<Rightarrow> Inr (v, rest) | _ \<Rightarrow> Inl UndefinedBehaviour)"

text \<open>\<^verbatim>\<open>SparseVector::persist\<close>. A name that cannot be opened leaves the disk as it is.\<close>

definition SparseVector_persist :: "'a SparseVector \<Rightarrow> string \<Rightarrow> 'a disk \<Rightarrow> fault + 'a disk" where
  "SparseVector_persist s f d =
     (if writable d f then
        andThen (for_loop 0 (nbActive s) (\<lambda>position out.
                   andThen (rd (activeIndexes s) position) (\<lambda>index. Inr (out @ [IntCell index])))
                 [IntCell 1, IntCell (indexesPositionLength s), IntCell (nbActive s)]) (\<lambda>out1.
        andThen (for_loop 0 (nbActive s) (\<lambda>position out.
                   andThen (rd (values s) position) (\<lambda>value. Inr (out @ [ValCell value])))
                 out1) (\<lambda>out2.
        Inr (d\<lparr>files := (files d)(f \<mapsto> out2)\<rparr>)))
      else Inr d)"

text \<open>
  \<^verbatim>\<open>SparseVector::resurrect\<close>. The cells of the temporary \<^verbatim>\<open>ractiveIndexes\<close> are all
  written by the first loop before the second loop reads them.
\<close>

definition SparseVector_resurrect ::
    "'a::zero SparseVector \<Rightarrow> string \<Rightarrow> 'a disk \<Rightarrow> fault + 'a SparseVector" where
  "SparseVector_resurrect s f d =
     (case files d f of
        None \<Rightarrow> Inl ProcessExit
      | Some ifs0 \<Rightarrow>
          andThen (read_int ifs0) (\<lambda>(vectorType, ifs1).
          if vectorType \<noteq> 1 then Inl AssertionFailed
          else
          andThen (read_int ifs1) (\<lambda>(rcapacity, ifs2).
          andThen (read_int ifs2) (\<lambda>(rnbActive, ifs3).
          if indexesPositionLength s \<noteq> rcapacity then Inl AssertionFailed
          else
          andThen (new_array rnbActive (\<lambda>_. 0)) (\<lambda>ractiveIndexes0.
          andThen (for_loop 0 rnbActive (\<lambda>position (ifs, ractiveIndexes).
                     andThen (read_int ifs) (\<lambda>(index, ifs').
                     andThen (wr ractiveIndexes position index) (\<lambda>ractiveIndexes'.
                     Inr (ifs', ractiveIndexes'))))
                   (ifs3, ractiveIndexes0)) (\<lambda>(ifs4, ractiveIndexes).
          andThen (for_loop 0 rnbActive (\<lambda>position (ifs, s).
                     andThen (read_val ifs) (\<lambda>(rvalue, ifs').
                     andThen (rd ractiveIndexes position) (\<lambda>index.
                     andThen (insertEntry s index rvalue) (\<lambda>s'.
                     Inr (ifs', s')))))
                   (ifs4, s)) (\<lambda>(ifs5, s').
          Inr s')))))))"

section \<open>DenseVector\<close>

record 'a DenseVector =
  capacity :: int
  data :: "'a list"

definition DenseVector_new :: "int \<Rightarrow> (nat \<Rightarrow> 'a::zero) \<Rightarrow> fault + 'a DenseVector" where
  "DenseVector_new n junk =
     andThen (new_array n junk) (\<lambda>data0.
     andThen (fill_range data0 0 n 0) (\<lambda>data1.
     Inr \<lparr>capacity = n, data = data1\<rparr>))"

definition DenseVector_persist :: "'a DenseVector \<Rightarrow> string \<Rightarrow> 'a disk \<Rightarrow> fault + 'a disk" where
  "DenseVector_persist v f d =
     (if writable d f then
        andThen (for_loop 0 (capacity v) (\<lambda>j out.
                   andThen (rd (data v) j) (\<lambda>value. Inr (out @ [ValCell value])))
                 [IntCell 0, IntCell (capacity v)]) (\<lambda>out1.
        Inr (d\<lparr>files := (files d)(f \<mapsto> out1)\<rparr>))
      else Inr d)"

definition DenseVector_resurrect ::
    "'a DenseVector \<Rightarrow> string \<Rightarrow> 'a disk \<Rightarrow> fault + 'a DenseVector" where
  "DenseVector_resurrect v f d =
     (case files d f of
        None \<Rightarrow> Inl ProcessExit
      | Some ifs0 \<Rightarrow>
          andThen (read_int ifs0) (\<lambda>(vectorType, ifs1).
          if vectorType \<noteq> 0 then Inl AssertionFailed
          else
          andThen (read_int ifs1) (\<lambda>(rcapacity, ifs2).
          if capacity v \<noteq> rcapacity then Inl AssertionFailed
          else
          andThen (for_loop 0 (capacity v) (\<lambda>j (ifs, v).
                     andThen (read_val ifs) (\<lambda>(value, ifs').
                     andThen (wr (data v) j value) (\<lambda>data'.
                     Inr (ifs', v\<lparr>data := data'\<rparr>))))
                   (ifs2, v)) (\<lambda>(ifs3, v').
          Inr v'))))"

section \<open>Objects in memory\<close>

text \<open>
  Copying is about which arrays two objects share, so here the objects live in a store.
  A \<^verbatim>\<open>SparseVector\<close> or \<^verbatim>\<open>DenseVector\<close> object holds its length fields and the
  addresses of its arrays. \<open>lim\<close> is the next address
  \<^verbatim>\<open>new\<close> hands out. A method of an object is the method of the previous sections run
  on the arrays the object points to (\<open>load_sparse\<close>), its result written back through the
  same pointers (\<open>store_sparse\<close>). \<open>allocate\<close> replaces the two active arrays exactly
  when it changes \<open>activeIndexesLength\<close>; then the old ones are deleted and the object
  points to fresh ones. This is the behaviour of the methods on an object whose three
  arrays are distinct blocks, as the constructors make them.
\<close>

type_synonym addr = nat

record sparse_object =
  o_indexesPositionLength :: int
  o_activeIndexesLength :: int
  o_nbActive :: int
  p_indexesPosition :: addr
  p_activeIndexes :: addr
  p_values :: addr

record dense_object =
  o_capacity :: int
  p_data :: addr

record 'a memory =
  int_arrays :: "addr \<Rightarrow> int list option"
  val_arrays :: "addr \<Rightarrow> 'a list option"
  sparse_objects :: "addr \<Rightarrow> sparse_object option"
  dense_objects :: "addr \<Rightarrow> dense_object option"
  lim :: addr

definition load_sparse :: "'a memory \<Rightarrow> addr \<Rightarrow> fault + 'a SparseVector" where
  "load_sparse m p =
     (case sparse_objects m p of
        None \<Rightarrow> Inl UndefinedBehaviour
      | Some ob \<Rightarrow>
          (case int_arrays m (p_indexesPosition ob) of
             None \<Rightarrow> Inl UndefinedBehaviour
           | Some ip \<Rightarrow>
               (case int_arrays m (p_activeIndexes ob) of
                  None \<Rightarrow> Inl UndefinedBehaviour
                | Some ai \<Rightarrow>
                    (case val_arrays m (p_values ob) of
                       None \<Rightarrow> Inl UndefinedBehaviour
                     | Some vs \<Rightarrow>
                         Inr \<lparr>indexesPositionLength = o_indexesPositionLength ob,
                              activeIndexesLength = o_activeIndexesLength ob,
                              nbActive = o_nbActive ob,
                              indexesPosition = ip, activeIndexes = ai, values = vs\<rparr>))))"

definition store_sparse :: "'a memory \<Rightarrow> addr \<Rightarrow> 'a SparseVector \<Rightarrow> fault + 'a memory" where
  "store_sparse m p s =
     (case sparse_objects m p of
        None \<Rightarrow> Inl UndefinedBehaviour
      | Some ob \<Rightarrow>
          if activeIndexesLength s = o_activeIndexesLength ob then
            Inr (m\<lparr>int_arrays := (int_arrays m)(p_indexesPosition ob \<mapsto> indexesPosition s,
                                                  p_activeIndexes ob \<mapsto> activeIndexes s),
                   val_arrays := (val_arrays m)(p_values ob \<mapsto> values s),
                   sparse_objects := (sparse_objects m)(p \<mapsto> ob\<lparr>o_nbActive := nbActive s\<rparr>)\<rparr>)
          else
            Inr (m\<lparr>int_arrays := ((int_arrays m)(p_activeIndexes ob := None))
                                     (p_indexesPosition ob \<mapsto> indexesPosition s,
                                      lim m \<mapsto> activeIndexes s),
                   val_arrays := ((val_arrays m)(p_values ob := None))
                                     (Suc (lim m) \<mapsto> values s),
                   sparse_objects := (sparse_objects m)(p \<mapsto>
                      ob\<lparr>o_activeIndexesLength := activeIndexesLength s, o_nbActive := nbActive s,
                         p_activeIndexes := lim m, p_values := Suc (lim m)\<rparr>),
                   lim := lim m + 2\<rparr>))"

text \<open>\<^verbatim>\<open>p->setEntry(index, value)\<close> and \<^verbatim>\<open>p->getEntry(index)\<close>.\<close>

definition mem_setEntry :: "'a::zero memory \<Rightarrow> addr \<Rightarrow> int \<Rightarrow> 'a \<Rightarrow> fault + 'a memory" where
  "mem_setEntry m p index value =
     andThen (load_sparse m p) (\<lambda>s.
     andThen (setEntry s index value) (\<lambda>s'. store_sparse m p s'))"

definition mem_getEntry :: "'a::zero memory \<Rightarrow> addr \<Rightarrow> int \<Rightarrow> fault + 'a" where
  "mem_getEntry m p index = andThen (load_sparse m p) (\<lambda>s. getEntry s index)"

text \<open>A new \<^verbatim>\<open>SparseVector\<close> object with three new arrays of the given contents.\<close>

definition new_sparse :: "'a memory \<Rightarrow> 'a SparseVector \<Rightarrow> addr \<times> 'a memory" where
  "new_sparse m s =
     (lim m + 3,
      m\<lparr>int_arrays := (int_arrays m)(lim m \<mapsto> indexesPosition s,
                                        lim m + 1 \<mapsto> activeIndexes s),
        val_arrays := (val_arrays m)(lim m + 2 \<mapsto> values s),
        sparse_objects := (sparse_objects m)(lim m + 3 \<mapsto>
           \<lparr>o_indexesPositionLength = indexesPositionLength s,
            o_activeIndexesLength = activeIndexesLength s, o_nbActive = nbActive s,
            p_indexesPosition = lim m, p_activeIndexes = lim m + 1, p_values = lim m + 2\<rparr>),
        lim := lim m + 4\<rparr>)"

text \<open>The copy constructor \<^verbatim>\<open>SparseVector(const SparseVector& that)\<close>.\<close>

definition SparseVector_copy ::
    "'a memory \<Rightarrow> addr \<Rightarrow> (nat \<Rightarrow> int) \<Rightarrow> (nat \<Rightarrow> 'a) \<Rightarrow> fault + addr \<times> 'a memory" where
  "SparseVector_copy m that junkI junkV =
     andThen (load_sparse m that) (\<lambda>t.
     andThen (new_array (indexesPositionLength t) junkI) (\<lambda>ip0.
     andThen (new_array (activeIndexesLength t) junkI) (\<lambda>ai0.
     andThen (new_array (activeIndexesLength t) junkV) (\<lambda>vs0.
     andThen (copy_into (indexesPosition t) (indexesPositionLength t) ip0) (\<lambda>ip.
     andThen (copy_into (activeIndexes t) (nbActive t) ai0) (\<lambda>ai.
     andThen (copy_into (values t) (nbActive t) vs0) (\<lambda>vs.
     Inr (new_sparse m \<lparr>indexesPositionLength = indexesPositionLength t,
                        activeIndexesLength = activeIndexesLength t, nbActive = nbActive t,
                        indexesPosition = ip, activeIndexes = ai, values = vs\<rparr>))))))))"

text \<open>The copy assignment \<^verbatim>\<open>SparseVector::operator=(const SparseVector& that)\<close>.\<close>

definition SparseVector_assign ::
    "'a memory \<Rightarrow> addr \<Rightarrow> addr \<Rightarrow> (nat \<Rightarrow> int) \<Rightarrow> (nat \<Rightarrow> 'a) \<Rightarrow> fault + 'a memory" where
  "SparseVector_assign m this that junkI junkV =
     (if this \<noteq> that then
        (case sparse_objects m this of
           None \<Rightarrow> Inl UndefinedBehaviour
         | Some ob \<Rightarrow>
             let m1 = m\<lparr>int_arrays := (int_arrays m)(p_indexesPosition ob := None,
                                                     p_activeIndexes ob := None),
                        val_arrays := (val_arrays m)(p_values ob := None)\<rparr>
             in
             andThen (load_sparse m1 that) (\<lambda>t.
             andThen (new_array (indexesPositionLength t) junkI) (\<lambda>ip0.
             andThen (new_array (activeIndexesLength t) junkI) (\<lambda>ai0.
             andThen (new_array (activeIndexesLength t) junkV) (\<lambda>vs0.
             andThen (copy_into (indexesPosition t) (indexesPositionLength t) ip0) (\<lambda>ip.
             andThen (copy_into (activeIndexes t) (nbActive t) ai0) (\<lambda>ai.
             andThen (copy_into (values t) (nbActive t) vs0) (\<lambda>vs.
             Inr (m1\<lparr>int_arrays := (int_arrays m1)(lim m \<mapsto> ip, lim m + 1 \<mapsto> ai),
                     val_arrays := (val_arrays m1)(lim m + 2 \<mapsto> vs),
                     sparse_objects := (sparse_objects m1)(this \<mapsto>
                        \<lparr>o_indexesPositionLength = indexesPositionLength t,
                         o_activeIndexesLength = activeIndexesLength t, o_nbActive = nbActive t,
                         p_indexesPosition = lim m, p_activeIndexes = lim m + 1,
                         p_values = lim m + 2\<rparr>),
                     lim := lim m + 3\<rparr>)))))))))
      else Inr m)"

subsection \<open>DenseVector objects\<close>

definition load_dense :: "'a memory \<Rightarrow> addr \<Rightarrow> fault + 'a DenseVector" where
  "load_dense m p =
     (case dense_objects m p of
        None \<Rightarrow> Inl UndefinedBehaviour
      | Some ob \<Rightarrow>
          (case val_arrays m (p_data ob) of
             None \<Rightarrow> Inl UndefinedBehaviour
           | Some xs \<Rightarrow> Inr \<lparr>capacity = o_capacity ob, data = xs\<rparr>))"

text \<open>\<^verbatim>\<open>(*p)[index]\<close> read, and \<^verbatim>\<open>(*p)[index] = value\<close>, through \<^verbatim>\<open>operator[]\<close>.\<close>

definition mem_dense_at :: "'a memory \<Rightarrow> addr \<Rightarrow> int \<Rightarrow> fault + 'a" where
  "mem_dense_at m p index =
     andThen (load_dense m p) (\<lambda>v.
     if index \<ge> 0 \<and> index < capacity v then rd (data v) index else Inl AssertionFailed)"

definition mem_dense_put :: "'a memory \<Rightarrow> addr \<Rightarrow> int \<Rightarrow> 'a \<Rightarrow> fault + 'a memory" where
  "mem_dense_put m p index value =
     (case dense_objects m p of
        None \<Rightarrow> Inl UndefinedBehaviour
      | Some ob \<Rightarrow>
          andThen (load_dense m p) (\<lambda>v.
          if index \<ge> 0 \<and> index < capacity v then
            andThen (wr (data v) index value) (\<lambda>xs.
            Inr (m\<lparr>val_arrays := (val_arrays m)(p_data ob \<mapsto> xs)\<rparr>))
          else Inl AssertionFailed))"

text \<open>\<^verbatim>\<open>DenseVector(const DenseVector& that)\<close> and \<^verbatim>\<open>DenseVector::operator=\<close>.\<close>

definition DenseVector_copy ::
    "'a memory \<Rightarrow> addr \<Rightarrow> (nat \<Rightarrow> 'a) \<Rightarrow> fault + addr \<times> 'a memory" where
  "DenseVector_copy m that junk =
     andThen (load_dense m that) (\<lambda>t.
     andThen (new_array (capacity t) junk) (\<lambda>data0.
     andThen (copy_into (data t) (capacity t) data0) (\<lambda>data1.
     Inr (lim m + 1,
          m\<lparr>val_arrays := (val_arrays m)(lim m \<mapsto> data1),
            dense_objects := (dense_objects m)(lim m + 1 \<mapsto>
               \<lparr>o_capacity = capacity t, p_data = lim m\<rparr>),
            lim := lim m + 2\<rparr>))))"

definition DenseVector_assign ::
    "'a memory \<Rightarrow> addr \<Rightarrow> addr \<Rightarrow> (nat \<Rightarrow> 'a) \<Rightarrow> fault + 'a memory" where
  "DenseVector_assign m this that junk =
     (if this \<noteq> that then
        (case dense_objects m this of
           None \<Rightarrow> Inl UndefinedBehaviour
         | Some ob \<Rightarrow>
             let m1 = m\<lparr>val_arrays := (val_arrays m)(p_data ob := None)\<rparr> in
             andThen (load_dense m1 that) (\<lambda>t.
             andThen (new_array (capacity t) junk) (\<lambda>data0.
             andThen (copy_into (data t) (capacity t) data0) (\<lambda>data1.
             Inr (m1\<lparr>val_arrays := (val_arrays m1)(lim m \<mapsto> data1),
                     dense_objects := (dense_objects m1)(this \<mapsto>
                        \<lparr>o_capacity = capacity t, p_data = lim m\<rparr>),
                     lim := lim m + 1\<rparr>)))))
      else Inr m)"

subsection \<open>Separation\<close>

text \<open>The object at \<open>p\<close> and its three arrays were handed out by \<^verbatim>\<open>new\<close> before.\<close>

definition sparse_allocated :: "'a memory \<Rightarrow> addr \<Rightarrow> bool" where
  "sparse_allocated m p =
     (case sparse_objects m p of
        None \<Rightarrow> False
      | Some ob \<Rightarrow> p < lim m \<and> p_indexesPosition ob < lim m \<and>
                   p_activeIndexes ob < lim m \<and> p_values ob < lim m)"

definition dense_allocated :: "'a memory \<Rightarrow> addr \<Rightarrow> bool" where
  "dense_allocated m p =
     (case dense_objects m p of
        None \<Rightarrow> False
      | Some ob \<Rightarrow> p < lim m \<and> p_data ob < lim m)"

text \<open>Two \<^verbatim>\<open>SparseVector\<close> (two \<^verbatim>\<open>DenseVector\<close>) objects that share no array.\<close>

definition sparse_separate :: "'a memory \<Rightarrow> addr \<Rightarrow> addr \<Rightarrow> bool" where
  "sparse_separate m p q =
     (case (sparse_objects m p, sparse_objects m q) of
        (Some a, Some b) \<Rightarrow>
          p \<noteq> q \<and>
          p_indexesPosition a \<noteq> p_indexesPosition b \<and> p_indexesPosition a \<noteq> p_activeIndexes b \<and>
          p_activeIndexes a \<noteq> p_indexesPosition b \<and> p_activeIndexes a \<noteq> p_activeIndexes b \<and>
          p_values a \<noteq> p_values b
      | _ \<Rightarrow> False)"

definition dense_separate :: "'a memory \<Rightarrow> addr \<Rightarrow> addr \<Rightarrow> bool" where
  "dense_separate m p q =
     (case (dense_objects m p, dense_objects m q) of
        (Some a, Some b) \<Rightarrow> p \<noteq> q \<and> p_data a \<noteq> p_data b
      | _ \<Rightarrow> False)"

section \<open>Properties of the sparse operations\<close>

lemma andThen_Inr [simp]: "andThen (Inr x) f = f x"
  by (simp add: andThen_def)

lemma andThen_Inl [simp]: "andThen (Inl e) f = Inl e"
  by (simp add: andThen_def)

lemma rd_ok: "0 \<le> i \<Longrightarrow> i < int (length a) \<Longrightarrow> rd a i = Inr (a ! nat i)"
  by (simp add: rd_def)

lemma wr_ok: "0 \<le> i \<Longrightarrow> i < int (length a) \<Longrightarrow> wr a i v = Inr (a[nat i := v])"
  by (simp add: wr_def)

lemma rd_nat [simp]: "i < length a \<Longrightarrow> rd a (int i) = Inr (a ! i)"
  by (simp add: rd_def)

lemma wr_nat [simp]: "i < length a \<Longrightarrow> wr a (int i) v = Inr (a[i := v])"
  by (simp add: wr_def)

text \<open>Facts read off the invariant, on natural-number positions and indexes.\<close>

lemma inv_lengths:
  assumes "wf_arrays s"
  shows "length (indexesPosition s) = nat (indexesPositionLength s)"
    and "length (activeIndexes s) = nat (activeIndexesLength s)"
    and "length (values s) = nat (activeIndexesLength s)"
    and "nat (nbActive s) \<le> nat (activeIndexesLength s)"
  using assms by (auto simp: wf_arrays_def)

lemma position_invD:
  assumes "position_inv s" "i < nat (nbActive s)"
  shows "0 \<le> activeIndexes s ! i" "activeIndexes s ! i < indexesPositionLength s"
        "indexesPosition s ! nat (activeIndexes s ! i) = int i"
  using assms by (auto simp: position_inv_def)

lemma active_distinct:
  assumes "position_inv s" "i < nat (nbActive s)" "j < nat (nbActive s)"
          "activeIndexes s ! i = activeIndexes s ! j"
  shows "i = j"
proof -
  have "int i = indexesPosition s ! nat (activeIndexes s ! i)"
    using position_invD(3)[OF assms(1,2)] by (rule sym)
  also have "\<dots> = indexesPosition s ! nat (activeIndexes s ! j)"
    by (simp only: assms(4))
  also have "\<dots> = int j"
    by (rule position_invD(3)[OF assms(1,3)])
  finally show ?thesis by (simp only: of_nat_eq_iff)
qed

lemma absent_invD:
  assumes "absent_inv s" "k < nat (indexesPositionLength s)" "indexesPosition s ! k \<noteq> - 1"
  shows "0 \<le> indexesPosition s ! k" "indexesPosition s ! k < nbActive s"
        "activeIndexes s ! nat (indexesPosition s ! k) = int k"
  using assms by (auto simp: absent_inv_def)


lemma getEntry_entry:
  assumes "sparse_inv s" "0 \<le> k" "k < indexesPositionLength s"
  shows "getEntry s k = Inr (entry s k)"
proof -
  have wf: "wf_arrays s" and ab: "absent_inv s" using assms(1) by (auto simp: sparse_inv_def)
  have k: "nat k < nat (indexesPositionLength s)" using assms(2,3) by simp
  have "k < int (length (indexesPosition s))" using assms(3) wf by (simp add: wf_arrays_def)
  then have r: "rd (indexesPosition s) k = Inr (indexesPosition s ! nat k)"
    using assms(2) by (rule rd_ok[rotated])
  show ?thesis
  proof (cases "indexesPosition s ! nat k = - 1")
    case True
    then show ?thesis by (simp add: getEntry_def r entry_def)
  next
    case False
    note d = absent_invD[OF ab k False]
    have "indexesPosition s ! nat k < int (length (values s))"
      using d(2) wf by (simp add: wf_arrays_def)
    then have "rd (values s) (indexesPosition s ! nat k) = Inr (values s ! nat (indexesPosition s ! nat k))"
      using d(1) by (rule rd_ok[rotated])
    with False show ?thesis by (simp add: getEntry_def r entry_def)
  qed
qed


lemma removeEntry_at_explicit:
  assumes wf: "wf_arrays s" and po: "position_inv s" and p: "p < nat (nbActive s)"
  defines "n \<equiv> nat (nbActive s) - 1"
  shows "removeEntry_at s (int p) idx =
     Inr (s\<lparr>indexesPosition := (indexesPosition s)[nat (activeIndexes s ! n) := int p,
                                                   nat (activeIndexes s ! p) := - 1],
            activeIndexes := (activeIndexes s)[n := activeIndexes s ! p, p := activeIndexes s ! n],
            values := (values s)[n := values s ! p, p := values s ! n],
            nbActive := nbActive s - 1\<rparr>)"
proof -
  note len = inv_lengths[OF wf]
  have n: "n < nat (nbActive s)" and nb: "nbActive s - 1 = int n"
    using p by (auto simp: n_def)
  have nl: "n < length (activeIndexes s)" "n < length (values s)"
    and pl: "p < length (activeIndexes s)" "p < length (values s)"
    using n p len by auto
  note A = position_invD[OF po n] and B = position_invD[OF po p]
  have kA: "nat (activeIndexes s ! n) < length (indexesPosition s)"
    and kB: "nat (activeIndexes s ! p) < length (indexesPosition s)"
    using A(1,2) B(1,2) len(1) by auto
  have iA: "int (nat (activeIndexes s ! n)) = activeIndexes s ! n"
    and iB: "int (nat (activeIndexes s ! p)) = activeIndexes s ! p"
    using A(1) B(1) by auto
  have rA: "rd (activeIndexes s) (int n) = Inr (activeIndexes s ! n)"
    and rB: "rd (activeIndexes s) (int p) = Inr (activeIndexes s ! p)"
    and rvA: "rd (values s) (int n) = Inr (values s ! n)"
    and rvB: "rd (values s) (int p) = Inr (values s ! p)"
    using nl pl by (simp_all add: rd_def)
  have w1: "wr (indexesPosition s) (activeIndexes s ! n) (int p)
              = Inr ((indexesPosition s)[nat (activeIndexes s ! n) := int p])"
    using wr_nat[OF kA] by (simp only: iA)
  have w2: "wr ((indexesPosition s)[nat (activeIndexes s ! n) := int p]) (activeIndexes s ! p) (int n)
              = Inr ((indexesPosition s)[nat (activeIndexes s ! n) := int p, nat (activeIndexes s ! p) := int n])"
    using wr_nat[of "nat (activeIndexes s ! p)" "(indexesPosition s)[nat (activeIndexes s ! n) := int p]"] kB
    by (simp only: iB length_list_update)
  have last: "(activeIndexes s)[n := activeIndexes s ! p, p := activeIndexes s ! n] ! n = activeIndexes s ! p"
    using nl pl by (cases "p = n") (simp_all add: nth_list_update)
  have w3: "wr ((indexesPosition s)[nat (activeIndexes s ! n) := int p, nat (activeIndexes s ! p) := int n])
               (activeIndexes s ! p) (- 1)
              = Inr ((indexesPosition s)[nat (activeIndexes s ! n) := int p, nat (activeIndexes s ! p) := - 1])"
    using wr_nat[of "nat (activeIndexes s ! p)"
        "(indexesPosition s)[nat (activeIndexes s ! n) := int p, nat (activeIndexes s ! p) := int n]" "- 1"] kB
    by (simp only: iB length_list_update list_update_overwrite)
  show ?thesis
    by (simp add: removeEntry_at_def swapEntry_def nb rA rB rvA rvB w1 w2 w3 last nl pl)
qed


lemma swap_removed_facts:
  assumes wf: "wf_arrays s" and po: "position_inv s" and p: "p < nat (nbActive s)"
  defines "n \<equiv> nat (nbActive s) - 1"
  defines "kA \<equiv> nat (activeIndexes s ! n)" and "kB \<equiv> nat (activeIndexes s ! p)"
  shows "n < nat (nbActive s)" "p \<le> n"
    "kA < length (indexesPosition s)" "kB < length (indexesPosition s)"
    "int kA = activeIndexes s ! n" "int kB = activeIndexes s ! p"
    "indexesPosition s ! kA = int n" "indexesPosition s ! kB = int p"
    "kA = kB \<longleftrightarrow> p = n"
    "\<And>i. i < nat (nbActive s) \<Longrightarrow> nat (activeIndexes s ! i) = kA \<Longrightarrow> i = n"
    "\<And>i. i < nat (nbActive s) \<Longrightarrow> nat (activeIndexes s ! i) = kB \<Longrightarrow> i = p"
proof -
  note len = inv_lengths[OF wf]
  show n: "n < nat (nbActive s)" and "p \<le> n" using p by (auto simp: n_def)
  note A = position_invD[OF po n] and B = position_invD[OF po p]
  show "kA < length (indexesPosition s)" "kB < length (indexesPosition s)"
    using A(1,2) B(1,2) len(1) by (auto simp: kA_def kB_def)
  show iA: "int kA = activeIndexes s ! n" and iB: "int kB = activeIndexes s ! p"
    using A(1) B(1) by (auto simp: kA_def kB_def)
  show pA: "indexesPosition s ! kA = int n" and pB: "indexesPosition s ! kB = int p"
    using A(3) B(3) by (auto simp: kA_def kB_def)
  show "kA = kB \<longleftrightarrow> p = n"
  proof
    assume "kA = kB"
    then have "int n = int p" using pA pB by metis
    then show "p = n" by simp
  next
    assume "p = n" then show "kA = kB" by (simp add: kA_def kB_def)
  qed
  show "i = n" if i: "i < nat (nbActive s)" and e: "nat (activeIndexes s ! i) = kA" for i
  proof -
    have "int (nat (activeIndexes s ! i)) = activeIndexes s ! i"
      using position_invD(1)[OF po i] by simp
    then have "activeIndexes s ! i = activeIndexes s ! n" using e iA by metis
    then show ?thesis by (rule active_distinct[OF po i n])
  qed
  show "i = p" if i: "i < nat (nbActive s)" and e: "nat (activeIndexes s ! i) = kB" for i
  proof -
    have "int (nat (activeIndexes s ! i)) = activeIndexes s ! i"
      using position_invD(1)[OF po i] by simp
    then have "activeIndexes s ! i = activeIndexes s ! p" using e iB by metis
    then show ?thesis by (rule active_distinct[OF po i p])
  qed
qed


lemma removeEntry_at_position:
  assumes wf: "wf_arrays s" and po: "position_inv s" and p: "p < nat (nbActive s)"
  defines "n \<equiv> nat (nbActive s) - 1"
  shows "\<exists>s'. removeEntry_at s (int p) idx = Inr s' \<and> wf_arrays s' \<and> position_inv s' \<and>
           nbActive s' = nbActive s - 1 \<and>
           indexesPositionLength s' = indexesPositionLength s \<and>
           activeIndexesLength s' = activeIndexesLength s \<and>
           indexesPosition s' = (indexesPosition s)[nat (activeIndexes s ! n) := int p,
                                                    nat (activeIndexes s ! p) := - 1] \<and>
           (\<forall>i<n. activeIndexes s' ! i = (if i = p then activeIndexes s ! n else activeIndexes s ! i)) \<and>
           (\<forall>i<n. values s' ! i = (if i = p then values s ! n else values s ! i))"
proof -
  define kA where "kA = nat (activeIndexes s ! n)"
  define kB where "kB = nat (activeIndexes s ! p)"
  define ip' where "ip' = (indexesPosition s)[kA := int p, kB := - 1]"
  define ai' where "ai' = (activeIndexes s)[n := activeIndexes s ! p, p := activeIndexes s ! n]"
  define vs' where "vs' = (values s)[n := values s ! p, p := values s ! n]"
  define s' where "s' = s\<lparr>indexesPosition := ip', activeIndexes := ai', values := vs',
                            nbActive := nbActive s - 1\<rparr>"
  note len = inv_lengths[OF wf]
  note F = swap_removed_facts[OF wf po p, folded n_def, folded kA_def kB_def]
  have nl: "n < length (activeIndexes s)" "n < length (values s)"
    and pl: "p < length (activeIndexes s)" "p < length (values s)"
    using F(1) p len by auto
  have run: "removeEntry_at s (int p) idx = Inr s'"
    unfolding s'_def ip'_def ai'_def vs'_def kA_def kB_def n_def
    by (rule removeEntry_at_explicit[OF wf po p])
  have nb': "nat (nbActive s') = n" "nbActive s' = nbActive s - 1"
    by (simp_all add: s'_def n_def)
  have dim': "indexesPositionLength s' = indexesPositionLength s"
    and alen': "activeIndexesLength s' = activeIndexesLength s"
    by (simp_all add: s'_def)
  have sel: "indexesPosition s' = ip'" "activeIndexes s' = ai'" "values s' = vs'"
    by (simp_all add: s'_def)
  have ai_nth: "ai' ! i = (if i = p then activeIndexes s ! n else activeIndexes s ! i)" if "i < n" for i
    using that nl pl by (simp add: ai'_def nth_list_update)
  have vs_nth: "vs' ! i = (if i = p then values s ! n else values s ! i)" if "i < n" for i
    using that nl pl by (simp add: vs'_def nth_list_update)
  have ip_nth: "ip' ! k = (if k = kB then - 1 else if k = kA then int p else indexesPosition s ! k)"
    if "k < length (indexesPosition s)" for k
    using that by (simp add: ip'_def nth_list_update)
  have wf': "wf_arrays s'"
    using wf F(1) by (simp add: wf_arrays_def s'_def ip'_def ai'_def vs'_def n_def)
  have po': "position_inv s'"
    unfolding position_inv_def
  proof (intro ballI)
    fix i assume "i \<in> {0..<nat (nbActive s')}"
    then have i: "i < n" by (simp add: nb'(1))
    then have inb: "i < nat (nbActive s)" using F(1) by simp
    have "0 \<le> ai' ! i \<and> ai' ! i < indexesPositionLength s \<and> ip' ! nat (ai' ! i) = int i"
    proof (cases "i = p")
      case True
      then have "p \<noteq> n" using i by simp
      then have ne: "kA \<noteq> kB" using F(9) by simp
      have "ai' ! i = int kA" using ai_nth[OF i] True F(5) by simp
      moreover have "ip' ! kA = int p" using ip_nth[OF F(3)] ne by simp
      moreover have "int kA < indexesPositionLength s" using F(3) len(1) by simp
      ultimately show ?thesis using True by simp
    next
      case False
      have e: "ai' ! i = activeIndexes s ! i" using ai_nth[OF i] False by simp
      note I = position_invD[OF po inb]
      have "nat (activeIndexes s ! i) \<noteq> kA" using F(10)[OF inb] i by auto
      moreover have "nat (activeIndexes s ! i) \<noteq> kB" using F(11)[OF inb] False by auto
      moreover have "nat (activeIndexes s ! i) < length (indexesPosition s)"
        using I(1,2) len(1) by simp
      ultimately have "ip' ! nat (activeIndexes s ! i) = indexesPosition s ! nat (activeIndexes s ! i)"
        using ip_nth by simp
      then show ?thesis using I e by simp
    qed
    then show "0 \<le> activeIndexes s' ! i \<and> activeIndexes s' ! i < indexesPositionLength s' \<and>
          indexesPosition s' ! nat (activeIndexes s' ! i) = int i"
      by (simp only: sel dim')
  qed
  have r0: "indexesPosition s' = (indexesPosition s)[nat (activeIndexes s ! n) := int p,
                                                    nat (activeIndexes s ! p) := - 1]"
    by (simp add: sel ip'_def kA_def kB_def)
  have r2: "\<forall>i<n. activeIndexes s' ! i = (if i = p then activeIndexes s ! n else activeIndexes s ! i)"
    using ai_nth by (simp add: sel)
  have r3: "\<forall>i<n. values s' ! i = (if i = p then values s ! n else values s ! i)"
    using vs_nth by (simp add: sel)
  from run wf' po' nb'(2) dim' alen' r0 r2 r3 show ?thesis by blast
qed

lemma removeEntry_at_correct:
  assumes inv: "sparse_inv s" and p: "p < nat (nbActive s)"
  defines "n \<equiv> nat (nbActive s) - 1"
  shows "\<exists>s'. removeEntry_at s (int p) idx = Inr s' \<and> sparse_inv s' \<and>
           nbActive s' = nbActive s - 1 \<and>
           indexesPositionLength s' = indexesPositionLength s \<and>
           activeIndexesLength s' = activeIndexesLength s \<and>
           indexesPosition s' ! nat (activeIndexes s ! p) = - 1 \<and>
           (\<forall>i<n. activeIndexes s' ! i = (if i = p then activeIndexes s ! n else activeIndexes s ! i)) \<and>
           (\<forall>i<n. values s' ! i = (if i = p then values s ! n else values s ! i)) \<and>
           (\<forall>k<nat (indexesPositionLength s).
              entry s' (int k) = (if k = nat (activeIndexes s ! p) then 0 else entry s (int k))) \<and>
           (\<forall>k<nat (indexesPositionLength s). k \<noteq> nat (activeIndexes s ! p) \<longrightarrow>
              (indexesPosition s' ! k = - 1 \<longleftrightarrow> indexesPosition s ! k = - 1))"
proof -
  define kA where "kA = nat (activeIndexes s ! n)"
  define kB where "kB = nat (activeIndexes s ! p)"
  have wf: "wf_arrays s" and po: "position_inv s" and ab: "absent_inv s"
    using inv by (auto simp: sparse_inv_def)
  note len = inv_lengths[OF wf]
  note F = swap_removed_facts[OF wf po p, folded n_def, folded kA_def kB_def]
  obtain s' where run: "removeEntry_at s (int p) idx = Inr s'"
    and wf': "wf_arrays s'" and po': "position_inv s'"
    and nb': "nbActive s' = nbActive s - 1"
    and dim': "indexesPositionLength s' = indexesPositionLength s"
    and alen': "activeIndexesLength s' = activeIndexesLength s"
    and ip': "indexesPosition s' = (indexesPosition s)[kA := int p, kB := - 1]"
    and ai_nth: "\<And>i. i < n \<Longrightarrow>
           activeIndexes s' ! i = (if i = p then activeIndexes s ! n else activeIndexes s ! i)"
    and vs_nth: "\<And>i. i < n \<Longrightarrow> values s' ! i = (if i = p then values s ! n else values s ! i)"
    using removeEntry_at_position[OF wf po p, of idx] unfolding n_def kA_def kB_def by blast
  have ip_nth: "indexesPosition s' ! k =
                  (if k = kB then - 1 else if k = kA then int p else indexesPosition s ! k)"
    if "k < length (indexesPosition s)" for k
    using that by (simp add: ip' nth_list_update)
  have ab': "absent_inv s'"
    unfolding absent_inv_def
  proof (intro ballI)
    fix k assume "k \<in> {0..<nat (indexesPositionLength s')}"
    then have k: "k < nat (indexesPositionLength s)" by (simp add: dim')
    then have kl: "k < length (indexesPosition s)" using len(1) by simp
    show "indexesPosition s' ! k = - 1 \<or>
         (0 \<le> indexesPosition s' ! k \<and> indexesPosition s' ! k < nbActive s' \<and>
          activeIndexes s' ! nat (indexesPosition s' ! k) = int k)"
    proof (cases "k = kB")
      case True
      then show ?thesis using ip_nth[OF kl] by simp
    next
      case nB: False
      show ?thesis
      proof (cases "k = kA")
        case True
        then have "p \<noteq> n" using nB F(9) by auto
        then have pn: "p < n" using F(2) by simp
        have "indexesPosition s' ! k = int p" using ip_nth[OF kl] nB True by simp
        moreover have "activeIndexes s' ! p = int kA" using ai_nth[OF pn] F(5) by simp
        moreover have "int p < nbActive s - 1" using pn by (simp add: n_def)
        ultimately show ?thesis using True by (simp add: nb')
      next
        case nA: False
        have e: "indexesPosition s' ! k = indexesPosition s ! k" using ip_nth[OF kl] nA nB by simp
        show ?thesis
        proof (cases "indexesPosition s ! k = - 1")
          case True
          then show ?thesis using e by simp
        next
          case False
          note D = absent_invD[OF ab k False]
          define q where "q = nat (indexesPosition s ! k)"
          have q: "q < nat (nbActive s)" "int q = indexesPosition s ! k"
            using D(1,2) by (auto simp: q_def)
          have aq: "activeIndexes s ! q = int k" using D(3) by (simp add: q_def)
          have "q \<noteq> n" using aq F(5) nA by auto
          moreover have qp: "q \<noteq> p" using aq F(6) nB by auto
          ultimately have qn: "q < n" using q(1) by (simp add: n_def)
          have "activeIndexes s' ! q = int k" using ai_nth[OF qn] qp aq by simp
          moreover have "int q < nbActive s - 1" using qn by (simp add: n_def)
          ultimately show ?thesis using e q(2) D(1) by (simp add: q_def nb')
        qed
      qed
    qed
  qed
  have en: "entry s' (int k) = (if k = kB then 0 else entry s (int k))"
    if k: "k < nat (indexesPositionLength s)" for k
  proof -
    have kl: "k < length (indexesPosition s)" using k len(1) by simp
    show ?thesis
    proof (cases "k = kB")
      case True
      then show ?thesis using ip_nth[OF kl] by (simp add: entry_def)
    next
      case nB: False
      show ?thesis
      proof (cases "k = kA")
        case True
        then have "p \<noteq> n" using nB F(9) by auto
        then have pn: "p < n" using F(2) by simp
        have "indexesPosition s' ! k = int p" using ip_nth[OF kl] nB True by simp
        moreover have "values s' ! p = values s ! n" using vs_nth[OF pn] by simp
        moreover have "indexesPosition s ! k = int n" using True F(7) by simp
        ultimately show ?thesis using nB by (simp add: entry_def)
      next
        case nA: False
        have e: "indexesPosition s' ! k = indexesPosition s ! k" using ip_nth[OF kl] nA nB by simp
        show ?thesis
        proof (cases "indexesPosition s ! k = - 1")
          case True
          then show ?thesis using e nB by (simp add: entry_def)
        next
          case False
          note D = absent_invD[OF ab k False]
          define q where "q = nat (indexesPosition s ! k)"
          have q: "q < nat (nbActive s)" "int q = indexesPosition s ! k"
            using D(1,2) by (auto simp: q_def)
          have aq: "activeIndexes s ! q = int k" using D(3) by (simp add: q_def)
          have "q \<noteq> n" using aq F(5) nA by auto
          moreover have qp: "q \<noteq> p" using aq F(6) nB by auto
          ultimately have qn: "q < n" using q(1) by (simp add: n_def)
          have "values s' ! q = values s ! q" using vs_nth[OF qn] qp by simp
          then show ?thesis using e False nB by (simp add: entry_def q_def)
        qed
      qed
    qed
  qed
  have r1: "indexesPosition s' ! nat (activeIndexes s ! p) = - 1"
    using ip_nth[OF F(4)] by (simp add: kB_def)
  have r2: "\<forall>i<n. activeIndexes s' ! i = (if i = p then activeIndexes s ! n else activeIndexes s ! i)"
    using ai_nth by simp
  have r3: "\<forall>i<n. values s' ! i = (if i = p then values s ! n else values s ! i)"
    using vs_nth by simp
  have r4: "\<forall>k<nat (indexesPositionLength s).
              entry s' (int k) = (if k = nat (activeIndexes s ! p) then 0 else entry s (int k))"
    using en by (simp add: kB_def)
  have r5: "\<forall>k<nat (indexesPositionLength s). k \<noteq> nat (activeIndexes s ! p) \<longrightarrow>
              (indexesPosition s' ! k = - 1 \<longleftrightarrow> indexesPosition s ! k = - 1)"
  proof (intro allI impI)
    fix k assume k: "k < nat (indexesPositionLength s)" and ne: "k \<noteq> nat (activeIndexes s ! p)"
    have kl: "k < length (indexesPosition s)" using k len(1) by simp
    show "indexesPosition s' ! k = - 1 \<longleftrightarrow> indexesPosition s ! k = - 1"
    proof (cases "k = kA")
      case True
      then show ?thesis using ip_nth[OF kl] ne F(7) by (simp add: kB_def)
    next
      case False
      then show ?thesis using ip_nth[OF kl] ne by (simp add: kB_def)
    qed
  qed
  have "sparse_inv s'" using wf' po' ab' by (simp add: sparse_inv_def)
  with run nb' dim' alen' r1 r2 r3 r4 r5 show ?thesis by blast
qed

lemma allocate_correct:
  assumes wf: "wf_arrays s" and r: "0 \<le> r" and small: "r \<le> 715827882"
  shows "\<exists>s'. allocate s r = Inr s' \<and> wf_arrays s' \<and> r \<le> activeIndexesLength s' \<and>
           nbActive s' = nbActive s \<and> indexesPositionLength s' = indexesPositionLength s \<and>
           indexesPosition s' = indexesPosition s \<and>
           take (nat (activeIndexesLength s)) (activeIndexes s') = activeIndexes s \<and>
           take (nat (activeIndexesLength s)) (values s') = values s"
proof (cases "r \<le> activeIndexesLength s")
  case True
  then show ?thesis using wf inv_lengths[OF wf] by (simp add: allocate_def)
next
  case False
  define len where "len = activeIndexesLength s"
  define c where "c = (r * 3) sdiv 2 + 1"
  have len0: "0 \<le> len" and lr: "len < r" using wf False by (auto simp: wf_arrays_def len_def)
  have "(r * 3) sdiv 2 = (r * 3) div 2"
    using r by (simp add: signed_divide_int_def sgn_if)
  moreover have "r \<le> (r * 3) div 2" using r by presburger
  ultimately have c: "r < c" and cdiv: "c = (r * 3) div 2 + 1" by (simp_all add: c_def)
  have t1: "int_result (r * 3) = Inr (r * 3)"
    using r small by (simp add: int_result_def)
  have "c \<le> 2147483647" unfolding cdiv using r small by presburger
  then have t2: "int_result c = Inr c"
    using c r by (simp add: int_result_def)
  have la: "int (length (activeIndexes s)) = len" and lv: "int (length (values s)) = len"
    using wf by (auto simp: wf_arrays_def len_def)
  have na: "new_array c (\<lambda>_. 0::int) = Inr (replicate (nat c) 0)"
    using c r by (simp add: new_array_def map_replicate_const)
  have nv: "new_array c (\<lambda>_. 0::'a) = Inr (replicate (nat c) 0)"
    using c r by (simp add: new_array_def map_replicate_const)
  have ca: "copy_into (activeIndexes s) len (replicate (nat c) (0::int))
              = Inr (activeIndexes s @ replicate (nat c - nat len) 0)"
    using la len0 lr c by (simp add: copy_into_def)
  have cv: "copy_into (values s) len (replicate (nat c) (0::'a))
              = Inr (values s @ replicate (nat c - nat len) 0)"
    using lv len0 lr c by (simp add: copy_into_def)
  have fa: "fill_range (activeIndexes s @ replicate (nat c - nat len) (0::int)) len c 0
              = Inr (activeIndexes s @ replicate (nat c - nat len) 0)"
    using la len0 lr c by (simp add: fill_range_def nat_diff_distrib)
  have fv: "fill_range (values s @ replicate (nat c - nat len) (0::'a)) len c 0
              = Inr (values s @ replicate (nat c - nat len) 0)"
    using lv len0 lr c by (simp add: fill_range_def nat_diff_distrib)
  have run: "allocate s r = Inr (s\<lparr>activeIndexesLength := c,
                 activeIndexes := activeIndexes s @ replicate (nat c - nat len) 0,
                 values := values s @ replicate (nat c - nat len) 0\<rparr>)"
    using False
    by (simp add: allocate_def t1 c_def[symmetric] t2 len_def[symmetric] na nv ca cv fa fv)
  have "nat len + (nat c - nat len) = nat c" using len0 lr c by simp
  then have "wf_arrays (s\<lparr>activeIndexesLength := c,
                 activeIndexes := activeIndexes s @ replicate (nat c - nat len) 0,
                 values := values s @ replicate (nat c - nat len) 0\<rparr>)"
    using wf la lv lr c len0 by (simp add: wf_arrays_def len_def)
  then show ?thesis
    using run c la lv by (simp add: len_def[symmetric])
qed


lemma appendEntry_explicit:
  assumes wf: "wf_arrays s" and k: "k < nat (indexesPositionLength s)"
      and small: "nbActive s + 1 \<le> 715827882"
  shows "\<exists>s'. appendEntry s (int k) v = Inr s' \<and> wf_arrays s' \<and>
           nbActive s' = nbActive s + 1 \<and> indexesPositionLength s' = indexesPositionLength s \<and>
           indexesPosition s' = (indexesPosition s)[k := nbActive s] \<and>
           (\<forall>i<nat (nbActive s). activeIndexes s' ! i = activeIndexes s ! i \<and>
                                  values s' ! i = values s ! i) \<and>
           activeIndexes s' ! nat (nbActive s) = int k \<and> values s' ! nat (nbActive s) = v"
proof -
  define m where "m = nat (nbActive s)"
  have nb: "nbActive s = int m" and nb0: "0 \<le> nbActive s + 1"
    using wf by (auto simp: wf_arrays_def m_def)
  obtain s1 where a: "allocate s (nbActive s + 1) = Inr s1" and wf1: "wf_arrays s1"
    and cap: "nbActive s + 1 \<le> activeIndexesLength s1" and nb1: "nbActive s1 = nbActive s"
    and dim1: "indexesPositionLength s1 = indexesPositionLength s"
    and ip1: "indexesPosition s1 = indexesPosition s"
    and ta: "take (nat (activeIndexesLength s)) (activeIndexes s1) = activeIndexes s"
    and tv: "take (nat (activeIndexesLength s)) (values s1) = values s"
    using allocate_correct[OF wf nb0 small] by blast
  note len = inv_lengths[OF wf] and len1 = inv_lengths[OF wf1]
  have ml: "m < length (activeIndexes s1)" "m < length (values s1)"
    using cap len1 nb by auto
  have kl: "k < length (indexesPosition s)" using k len(1) by simp
  have mle: "m \<le> nat (activeIndexesLength s)" using len(4) by (simp add: m_def)
  have old: "activeIndexes s1 ! i = activeIndexes s ! i \<and> values s1 ! i = values s ! i"
    if "i < m" for i
  proof -
    have i: "i < nat (activeIndexesLength s)" using that mle by simp
    have "activeIndexes s ! i = take (nat (activeIndexesLength s)) (activeIndexes s1) ! i"
      by (simp only: ta)
    moreover have "values s ! i = take (nat (activeIndexesLength s)) (values s1) ! i"
      by (simp only: tv)
    ultimately show ?thesis using i by simp
  qed
  define s' where "s' = s1\<lparr>activeIndexes := (activeIndexes s1)[m := int k],
                             values := (values s1)[m := v],
                             indexesPosition := (indexesPosition s)[k := int m],
                             nbActive := int m + 1\<rparr>"
  have a': "allocate s (int m + 1) = Inr s1" and nb1': "nbActive s1 = int m"
    using a nb1 by (simp_all only: nb)
  have run: "appendEntry s (int k) v = Inr s'"
    using ml kl by (simp add: appendEntry_def a' nb1' nb ip1 s'_def)
  have wf': "wf_arrays s'"
    using wf1 cap nb by (simp add: wf_arrays_def s'_def ip1)
  have "\<forall>i<m. activeIndexes s' ! i = activeIndexes s ! i \<and> values s' ! i = values s ! i"
    using old by (simp add: s'_def)
  moreover have "activeIndexes s' ! m = int k" "values s' ! m = v"
    using ml by (simp_all add: s'_def)
  moreover have "nbActive s' = nbActive s + 1" "indexesPositionLength s' = indexesPositionLength s"
    "indexesPosition s' = (indexesPosition s)[k := nbActive s]"
    by (simp_all add: s'_def nb dim1)
  ultimately show ?thesis using run wf' unfolding m_def by blast
qed

lemma updateEntry_explicit:
  assumes wf: "wf_arrays s" and p: "p < nat (nbActive s)"
  shows "updateEntry s idx v (int p) = Inr (s\<lparr>values := (values s)[p := v]\<rparr>)"
proof -
  have "p < length (values s)" using p inv_lengths[OF wf] by simp
  then show ?thesis by (simp add: updateEntry_def)
qed


lemma appendEntry_correct:
  assumes inv: "sparse_inv s" and k: "k < nat (indexesPositionLength s)"
      and absent: "indexesPosition s ! k = - 1"
      and small: "nbActive s + 1 \<le> 715827882"
  shows "\<exists>s'. appendEntry s (int k) v = Inr s' \<and> sparse_inv s' \<and>
           nbActive s' = nbActive s + 1 \<and> indexesPositionLength s' = indexesPositionLength s \<and>
           indexesPosition s' ! k = nbActive s \<and>
           (\<forall>i<nat (nbActive s). activeIndexes s' ! i = activeIndexes s ! i \<and>
                                  values s' ! i = values s ! i) \<and>
           activeIndexes s' ! nat (nbActive s) = int k \<and> values s' ! nat (nbActive s) = v \<and>
           (\<forall>j<nat (indexesPositionLength s).
              entry s' (int j) = (if j = k then v else entry s (int j))) \<and>
           (\<forall>j<nat (indexesPositionLength s). j \<noteq> k \<longrightarrow>
              (indexesPosition s' ! j = - 1 \<longleftrightarrow> indexesPosition s ! j = - 1))"
proof -
  have wf: "wf_arrays s" and po: "position_inv s" and ab: "absent_inv s"
    using inv by (auto simp: sparse_inv_def)
  define m where "m = nat (nbActive s)"
  have nb: "nbActive s = int m" using wf by (auto simp: wf_arrays_def m_def)
  obtain s' where run: "appendEntry s (int k) v = Inr s'" and wf': "wf_arrays s'"
    and nb': "nbActive s' = nbActive s + 1"
    and dim': "indexesPositionLength s' = indexesPositionLength s"
    and ip': "indexesPosition s' = (indexesPosition s)[k := nbActive s]"
    and old: "\<And>i. i < m \<Longrightarrow> activeIndexes s' ! i = activeIndexes s ! i"
             "\<And>i. i < m \<Longrightarrow> values s' ! i = values s ! i"
    and new: "activeIndexes s' ! m = int k" "values s' ! m = v"
    using appendEntry_explicit[OF wf k small, of v] unfolding m_def by blast
  note len = inv_lengths[OF wf]
  have kl: "k < length (indexesPosition s)" using k len(1) by simp
  have ip_nth: "indexesPosition s' ! j = (if j = k then int m else indexesPosition s ! j)"
    if "j < nat (indexesPositionLength s)" for j
    using that len(1) by (simp add: ip' nb nth_list_update)
  have po': "position_inv s'"
    unfolding position_inv_def
  proof (intro ballI)
    fix i assume "i \<in> {0..<nat (nbActive s')}"
    then have i: "i < Suc m" by (simp add: nb' nb)
    show "0 \<le> activeIndexes s' ! i \<and> activeIndexes s' ! i < indexesPositionLength s' \<and>
          indexesPosition s' ! nat (activeIndexes s' ! i) = int i"
    proof (cases "i = m")
      case True
      then show ?thesis using new(1) k ip_nth[OF k] by (simp add: dim')
    next
      case False
      then have im: "i < m" using i by simp
      then have inb: "i < nat (nbActive s)" by (simp add: m_def)
      note I = position_invD[OF po inb]
      have jl: "nat (activeIndexes s ! i) < nat (indexesPositionLength s)" using I(1,2) by simp
      have "nat (activeIndexes s ! i) \<noteq> k" using I(3) absent by auto
      then have "indexesPosition s' ! nat (activeIndexes s ! i) = int i"
        using ip_nth[OF jl] I(3) by simp
      then show ?thesis using I(1,2) old(1)[OF im] by (simp add: dim')
    qed
  qed
  have ab': "absent_inv s'"
    unfolding absent_inv_def
  proof (intro ballI)
    fix j assume "j \<in> {0..<nat (indexesPositionLength s')}"
    then have j: "j < nat (indexesPositionLength s)" by (simp add: dim')
    show "indexesPosition s' ! j = - 1 \<or>
         (0 \<le> indexesPosition s' ! j \<and> indexesPosition s' ! j < nbActive s' \<and>
          activeIndexes s' ! nat (indexesPosition s' ! j) = int j)"
    proof (cases "j = k")
      case True
      then show ?thesis using ip_nth[OF j] new(1) by (simp add: nb' nb)
    next
      case nk: False
      have e: "indexesPosition s' ! j = indexesPosition s ! j" using ip_nth[OF j] nk by simp
      show ?thesis
      proof (cases "indexesPosition s ! j = - 1")
        case True
        then show ?thesis using e by simp
      next
        case False
        note D = absent_invD[OF ab j False]
        have q: "nat (indexesPosition s ! j) < m" using D(1,2) by (simp add: m_def)
        show ?thesis using D old(1)[OF q] by (simp add: e nb')
      qed
    qed
  qed
  have en: "entry s' (int j) = (if j = k then v else entry s (int j))"
    if j: "j < nat (indexesPositionLength s)" for j
  proof (cases "j = k")
    case True
    then show ?thesis using ip_nth[OF j] new(2) by (simp add: entry_def)
  next
    case nk: False
    have e: "indexesPosition s' ! j = indexesPosition s ! j" using ip_nth[OF j] nk by simp
    show ?thesis
    proof (cases "indexesPosition s ! j = - 1")
      case True
      then show ?thesis using e nk by (simp add: entry_def)
    next
      case False
      note D = absent_invD[OF ab j False]
      have q: "nat (indexesPosition s ! j) < m" using D(1,2) by (simp add: m_def)
      show ?thesis using old(2)[OF q] False nk by (simp add: entry_def e)
    qed
  qed
  have "sparse_inv s'" using wf' po' ab' by (simp add: sparse_inv_def)
  moreover have "indexesPosition s' ! k = nbActive s" using ip_nth[OF k] by (simp add: nb)
  moreover have "\<forall>i<nat (nbActive s). activeIndexes s' ! i = activeIndexes s ! i \<and>
                                  values s' ! i = values s ! i"
    using old by (simp add: m_def)
  moreover have "activeIndexes s' ! nat (nbActive s) = int k \<and> values s' ! nat (nbActive s) = v"
    using new by (simp add: m_def)
  moreover have "\<forall>j<nat (indexesPositionLength s).
              entry s' (int j) = (if j = k then v else entry s (int j))"
    using en by simp
  moreover have "\<forall>j<nat (indexesPositionLength s). j \<noteq> k \<longrightarrow>
              (indexesPosition s' ! j = - 1 \<longleftrightarrow> indexesPosition s ! j = - 1)"
    using ip_nth by simp
  ultimately show ?thesis using run nb' dim' by blast
qed

lemma updateEntry_correct:
  assumes inv: "sparse_inv s" and k: "k < nat (indexesPositionLength s)"
      and present: "indexesPosition s ! k \<noteq> - 1"
  shows "\<exists>s'. updateEntry s (int k) v (indexesPosition s ! k) = Inr s' \<and> sparse_inv s' \<and>
           nbActive s' = nbActive s \<and> indexesPositionLength s' = indexesPositionLength s \<and>
           indexesPosition s' = indexesPosition s \<and> activeIndexes s' = activeIndexes s \<and>
           values s' = (values s)[nat (indexesPosition s ! k) := v] \<and>
           (\<forall>j<nat (indexesPositionLength s).
              entry s' (int j) = (if j = k then v else entry s (int j)))"
proof -
  have wf: "wf_arrays s" and po: "position_inv s" and ab: "absent_inv s"
    using inv by (auto simp: sparse_inv_def)
  note D = absent_invD[OF ab k present]
  define p where "p = nat (indexesPosition s ! k)"
  have p: "p < nat (nbActive s)" and ip: "indexesPosition s ! k = int p"
    using D(1,2) by (auto simp: p_def)
  define s' where "s' = s\<lparr>values := (values s)[p := v]\<rparr>"
  have run: "updateEntry s (int k) v (indexesPosition s ! k) = Inr s'"
    unfolding ip s'_def by (rule updateEntry_explicit[OF wf p])
  have pl: "p < length (values s)" using p inv_lengths[OF wf] by simp
  have inv': "sparse_inv s'"
    using inv by (simp add: sparse_inv_def wf_arrays_def position_inv_def absent_inv_def s'_def)
  have en: "entry s' (int j) = (if j = k then v else entry s (int j))"
    if j: "j < nat (indexesPositionLength s)" for j
  proof (cases "j = k")
    case True
    then show ?thesis using pl present by (simp add: entry_def s'_def p_def)
  next
    case nk: False
    show ?thesis
    proof (cases "indexesPosition s ! j = - 1")
      case True
      then show ?thesis using nk by (simp add: entry_def s'_def)
    next
      case False
      note E = absent_invD[OF ab j False]
      have "nat (indexesPosition s ! j) \<noteq> p"
      proof
        assume "nat (indexesPosition s ! j) = p"
        then have "activeIndexes s ! p = int j" using E(3) by simp
        moreover have "activeIndexes s ! p = int k" using D(3) by (simp add: p_def)
        ultimately show False using nk by simp
      qed
      then show ?thesis using False nk by (simp add: entry_def s'_def)
    qed
  qed
  show ?thesis using run inv' en by (simp add: s'_def p_def)
qed


lemma rd_indexesPosition:
  assumes "wf_arrays s" "k < nat (indexesPositionLength s)"
  shows "rd (indexesPosition s) (int k) = Inr (indexesPosition s ! k)"
  using assms inv_lengths(1)[OF assms(1)] by simp

lemma setNonZeroEntry_correct:
  assumes inv: "sparse_inv s" and k: "k < nat (indexesPositionLength s)"
      and small: "nbActive s + 1 \<le> 715827882"
  shows "\<exists>s'. setNonZeroEntry s (int k) v = Inr s' \<and> sparse_inv s' \<and>
           indexesPositionLength s' = indexesPositionLength s \<and>
           nbActive s' = (if indexesPosition s ! k = - 1 then nbActive s + 1 else nbActive s) \<and>
           indexesPosition s' ! k \<noteq> - 1 \<and>
           (\<forall>j<nat (indexesPositionLength s).
              entry s' (int j) = (if j = k then v else entry s (int j))) \<and>
           (\<forall>j<nat (indexesPositionLength s). j \<noteq> k \<longrightarrow>
              (indexesPosition s' ! j = - 1 \<longleftrightarrow> indexesPosition s ! j = - 1))"
proof -
  have wf: "wf_arrays s" using inv by (simp add: sparse_inv_def)
  note r = rd_indexesPosition[OF wf k]
  show ?thesis
  proof (cases "indexesPosition s ! k = - 1")
    case True
    have "0 \<le> nbActive s" using wf by (simp add: wf_arrays_def)
    then show ?thesis
      using appendEntry_correct[OF inv k True small, of v] True
      by (auto simp: setNonZeroEntry_def insertEntry_def r)
  next
    case False
    then show ?thesis
      using updateEntry_correct[OF inv k False, of v]
      by (auto simp: setNonZeroEntry_def r)
  qed
qed

lemma removeEntry_correct:
  assumes inv: "sparse_inv s" and k: "k < nat (indexesPositionLength s)"
  shows "\<exists>s'. removeEntry s (int k) = Inr s' \<and> sparse_inv s' \<and>
           indexesPositionLength s' = indexesPositionLength s \<and>
           nbActive s' = (if indexesPosition s ! k = - 1 then nbActive s else nbActive s - 1) \<and>
           indexesPosition s' ! k = - 1 \<and>
           (\<forall>j<nat (indexesPositionLength s).
              entry s' (int j) = (if j = k then 0 else entry s (int j))) \<and>
           (\<forall>j<nat (indexesPositionLength s). j \<noteq> k \<longrightarrow>
              (indexesPosition s' ! j = - 1 \<longleftrightarrow> indexesPosition s ! j = - 1))"
proof -
  have wf: "wf_arrays s" and ab: "absent_inv s" using inv by (simp_all add: sparse_inv_def)
  note r = rd_indexesPosition[OF wf k]
  show ?thesis
  proof (cases "indexesPosition s ! k = - 1")
    case True
    then have "\<forall>j<nat (indexesPositionLength s).
              entry s (int j) = (if j = k then 0 else entry s (int j))"
      by (simp add: entry_def)
    then show ?thesis using True inv by (simp add: removeEntry_def r)
  next
    case False
    note D = absent_invD[OF ab k False]
    define p where "p = nat (indexesPosition s ! k)"
    have p: "p < nat (nbActive s)" and ip: "indexesPosition s ! k = int p"
      and ap: "nat (activeIndexes s ! p) = k"
      using D by (auto simp: p_def)
    show ?thesis
      using removeEntry_at_correct[OF inv p, of "int k"] False
      by (auto simp: removeEntry_def r ip ap)
  qed
qed


lemma absent_not_active:
  assumes po: "position_inv s" and a: "indexesPosition s ! nat k = - 1"
  shows "k \<notin> set (take (nat (nbActive s)) (activeIndexes s))"
proof
  assume "k \<in> set (take (nat (nbActive s)) (activeIndexes s))"
  then obtain i where i: "i < length (take (nat (nbActive s)) (activeIndexes s))"
    and e: "take (nat (nbActive s)) (activeIndexes s) ! i = k"
    by (auto simp: in_set_conv_nth)
  have inb: "i < nat (nbActive s)" using i by simp
  then have "activeIndexes s ! i = k" using e by simp
  then have "indexesPosition s ! nat k = int i" using position_invD(3)[OF po inb] by simp
  then show False using a by simp
qed


subsection \<open>Counting loops\<close>

lemma for_loop_rule:
  assumes "P i s" and "i \<le> hi"
      and "\<And>j t. i \<le> j \<Longrightarrow> j < hi \<Longrightarrow> P j t \<Longrightarrow> \<exists>t'. body j t = Inr t' \<and> P (j + 1) t'"
  shows "\<exists>s'. for_loop i hi body s = Inr s' \<and> P hi s'"
  using assms
proof (induction i hi body s rule: for_loop.induct)
  case (1 i hi body s)
  show ?case
  proof (cases "i < hi")
    case True
    obtain t where t: "body i s = Inr t" and Pt: "P (i + 1) t"
      using "1.prems"(3)[of i s] "1.prems"(1) True by auto
    have "\<exists>s'. for_loop (i + 1) hi body t = Inr s' \<and> P hi s'"
    proof (rule "1.IH"[OF True t Pt])
      show "i + 1 \<le> hi" using True by simp
      show "\<exists>t'. body j u = Inr t' \<and> P (j + 1) t'" if "i + 1 \<le> j" "j < hi" "P j u" for j u
        using "1.prems"(3)[of j u] that by simp
    qed
    then show ?thesis using True t by (subst for_loop.simps) simp
  next
    case False
    then have "i = hi" using "1.prems"(2) by simp
    then show ?thesis using "1.prems"(1) by (subst for_loop.simps) simp
  qed
qed


subsection \<open>The loops of persist and resurrect\<close>

lemma read_int_IntCell: "read_int (IntCell i # rest) = Inr (i, rest)"
  by (simp add: read_int_def)

lemma read_val_ValCell: "read_val (ValCell v # rest) = Inr (v, rest)"
  by (simp add: read_val_def)

lemma write_cells_loop:
  assumes n: "n \<le> length xs"
  shows "for_loop 0 (int n) (\<lambda>position out.
            andThen (rd xs position) (\<lambda>x. Inr (out @ [C x]))) pre
         = Inr (pre @ map C (take n xs))"
proof -
  define body where "body = (\<lambda>position out. andThen (rd xs position) (\<lambda>x. Inr (out @ [C x])))"
  define P where "P = (\<lambda>j out. 0 \<le> j \<and> out = pre @ map C (take (nat j) xs))"
  have "\<exists>out. for_loop 0 (int n) body pre = Inr out \<and> P (int n) out"
  proof (rule for_loop_rule)
    show "P 0 pre" by (simp add: P_def)
    show "0 \<le> int n" by simp
    show "\<exists>t'. body j t = Inr t' \<and> P (j + 1) t'" if "0 \<le> j" "j < int n" "P j t" for j t
    proof -
      define i where "i = nat j"
      have i: "i < length xs" and j: "j = int i" using that(1,2) n by (auto simp: i_def)
      have "body j t = Inr (t @ [C (xs ! i)])" using i by (simp add: body_def j)
      moreover have "P (j + 1) (t @ [C (xs ! i)])"
        using that(3) i by (simp add: P_def j nat_add_distrib take_Suc_conv_app_nth)
      ultimately show ?thesis by blast
    qed
  qed
  then show ?thesis by (auto simp: body_def P_def)
qed

lemma SparseVector_persist_file:
  assumes wf: "wf_arrays s" and w: "writable d f"
  shows "SparseVector_persist s f d =
           Inr (d\<lparr>files := (files d)(f \<mapsto>
                  [IntCell 1, IntCell (indexesPositionLength s), IntCell (nbActive s)]
                  @ map IntCell (take (nat (nbActive s)) (activeIndexes s))
                  @ map ValCell (take (nat (nbActive s)) (values s)))\<rparr>)"
proof -
  note len = inv_lengths[OF wf]
  have nb: "nbActive s = int (nat (nbActive s))" using wf by (simp add: wf_arrays_def)
  have la: "nat (nbActive s) \<le> length (activeIndexes s)"
    and lv: "nat (nbActive s) \<le> length (values s)"
    using len by simp_all
  have 1: "for_loop 0 (nbActive s) (\<lambda>position out.
                   andThen (rd (activeIndexes s) position) (\<lambda>index. Inr (out @ [IntCell index])))
                 [IntCell 1, IntCell (indexesPositionLength s), IntCell (nbActive s)]
           = Inr ([IntCell 1, IntCell (indexesPositionLength s), IntCell (nbActive s)]
                  @ map IntCell (take (nat (nbActive s)) (activeIndexes s)))"
    using write_cells_loop[OF la, of IntCell] by (simp only: nb[symmetric])
  have 2: "for_loop 0 (nbActive s) (\<lambda>position out.
                   andThen (rd (values s) position) (\<lambda>value. Inr (out @ [ValCell value])))
                 ([IntCell 1, IntCell (indexesPositionLength s), IntCell (nbActive s)]
                  @ map IntCell (take (nat (nbActive s)) (activeIndexes s)))
           = Inr (([IntCell 1, IntCell (indexesPositionLength s), IntCell (nbActive s)]
                  @ map IntCell (take (nat (nbActive s)) (activeIndexes s)))
                  @ map ValCell (take (nat (nbActive s)) (values s)))"
    using write_cells_loop[OF lv, of ValCell] by (simp only: nb[symmetric])
  show ?thesis
    unfolding SparseVector_persist_def by (simp only: w if_True 1 2 andThen_Inr append_assoc)
qed

lemma read_indexes_loop:
  fixes rest :: "'a cell list"
  assumes la: "length arr0 = length is"
  shows "for_loop 0 (int (length is)) (\<lambda>position (ifs, ractiveIndexes).
                     andThen (read_int ifs) (\<lambda>(index, ifs').
                     andThen (wr ractiveIndexes position index) (\<lambda>ractiveIndexes'.
                     Inr (ifs', ractiveIndexes'))))
                   (map IntCell is @ rest, arr0)
         = Inr (rest, is)"
proof -
  define n where "n = length is"
  define body where "body = (\<lambda>position (ifs :: 'a cell list, ractiveIndexes).
                     andThen (read_int ifs) (\<lambda>(index, ifs').
                     andThen (wr ractiveIndexes position index) (\<lambda>ractiveIndexes'.
                     Inr (ifs', ractiveIndexes'))))"
  define P where "P = (\<lambda>j (st :: 'a cell list \<times> int list). 0 \<le> j \<and>
        fst st = map IntCell (drop (nat j) is) @ rest \<and>
        length (snd st) = n \<and> take (nat j) (snd st) = take (nat j) is)"
  have "\<exists>st. for_loop 0 (int n) body (map IntCell is @ rest, arr0) = Inr st \<and> P (int n) st"
  proof (rule for_loop_rule)
    show "P 0 (map IntCell is @ rest, arr0)" using la by (simp add: P_def n_def)
    show "0 \<le> int n" by simp
    show "\<exists>t'. body j t = Inr t' \<and> P (j + 1) t'" if "0 \<le> j" "j < int n" "P j t" for j t
    proof -
      define i where "i = nat j"
      have i: "i < length is" and j: "j = int i" using that(1,2) by (auto simp: i_def n_def)
      obtain ifs arr where t: "t = (ifs, arr)" by (cases t)
      have ifs: "ifs = IntCell (is ! i) # (map IntCell (drop (Suc i) is) @ rest)"
        and al: "length arr = n" and tk: "take i arr = take i is"
        using that(3) i by (simp_all add: P_def t j Cons_nth_drop_Suc[symmetric])
      have ia: "i < length arr" using i al by (simp add: n_def)
      have "body j t = Inr (map IntCell (drop (Suc i) is) @ rest, arr[i := is ! i])"
        using ia by (simp add: body_def t j ifs read_int_def)
      moreover have "P (j + 1) (map IntCell (drop (Suc i) is) @ rest, arr[i := is ! i])"
        using i ia al tk
        by (simp add: P_def j nat_add_distrib take_Suc_conv_app_nth)
      ultimately show ?thesis by blast
    qed
  qed
  then obtain st where run: "for_loop 0 (int n) body (map IntCell is @ rest, arr0) = Inr st"
    and P: "P (int n) st" by blast
  obtain ifs arr where st: "st = (ifs, arr)" by (cases st)
  have "ifs = rest" and al: "length arr = length is" and tk: "take (length is) arr = is"
    using P by (simp_all add: P_def st n_def)
  moreover have "arr = is" using tk al by (metis take_all order_refl)
  ultimately show ?thesis using run by (simp add: st body_def n_def)
qed

lemma insert_entries_loop:
  fixes r :: "'a::zero SparseVector" and rest :: "'a cell list"
  assumes wf: "wf_arrays r" and lv: "length vs = length is"
      and rng: "\<forall>i<length is. 0 \<le> is ! i \<and> is ! i < indexesPositionLength r"
      and small: "nbActive r + int (length is) \<le> 715827882"
  shows "\<exists>r'. for_loop 0 (int (length is)) (\<lambda>position (ifs, s).
                     andThen (read_val ifs) (\<lambda>(rvalue, ifs').
                     andThen (rd is position) (\<lambda>index.
                     andThen (insertEntry s index rvalue) (\<lambda>s'.
                     Inr (ifs', s')))))
                   (map ValCell vs @ rest, r) = Inr (rest, r') \<and>
           wf_arrays r' \<and> nbActive r' = nbActive r + int (length is) \<and>
           indexesPositionLength r' = indexesPositionLength r \<and>
           (\<forall>i<nat (nbActive r). activeIndexes r' ! i = activeIndexes r ! i \<and>
                                  values r' ! i = values r ! i) \<and>
           (\<forall>i<length is. activeIndexes r' ! (nat (nbActive r) + i) = is ! i \<and>
                           values r' ! (nat (nbActive r) + i) = vs ! i) \<and>
           (\<forall>k<nat (indexesPositionLength r).
              int k \<notin> set is \<longrightarrow> indexesPosition r' ! k = indexesPosition r ! k) \<and>
           (\<forall>i<length is. \<exists>i'<length is. is ! i' = is ! i \<and>
              indexesPosition r' ! nat (is ! i) = nbActive r + int i')"
proof -
  define n where "n = length is"
  define m where "m = nat (nbActive r)"
  have nbr: "nbActive r = int m" using wf by (simp add: wf_arrays_def m_def)
  define body where "body = (\<lambda>position (ifs :: 'a cell list, s :: 'a SparseVector).
                     andThen (read_val ifs) (\<lambda>(rvalue, ifs').
                     andThen (rd is position) (\<lambda>index.
                     andThen (insertEntry s index rvalue) (\<lambda>s'.
                     Inr (ifs', s')))))"
  define Q where "Q = (\<lambda>(c :: nat) (t :: 'a SparseVector).
        wf_arrays t \<and> nbActive t = int (m + c) \<and>
        indexesPositionLength t = indexesPositionLength r \<and>
        (\<forall>i<m. activeIndexes t ! i = activeIndexes r ! i \<and> values t ! i = values r ! i) \<and>
        (\<forall>i<c. activeIndexes t ! (m + i) = is ! i \<and> values t ! (m + i) = vs ! i) \<and>
        (\<forall>k<nat (indexesPositionLength r).
           int k \<notin> set (take c is) \<longrightarrow> indexesPosition t ! k = indexesPosition r ! k) \<and>
        (\<forall>i<c. \<exists>i'<c. is ! i' = is ! i \<and> indexesPosition t ! nat (is ! i) = int (m + i')))"
  define P where "P = (\<lambda>j (st :: 'a cell list \<times> 'a SparseVector). 0 \<le> j \<and>
        fst st = map ValCell (drop (nat j) vs) @ rest \<and> Q (nat j) (snd st))"
  have step: "\<exists>t'. insertEntry t (is ! c) (vs ! c) = Inr t' \<and> Q (Suc c) t'"
    if c: "c < n" and Qt: "Q c t" for c t
  proof -
    define k where "k = nat (is ! c)"
    have cr: "0 \<le> is ! c" "is ! c < indexesPositionLength r" using rng c by (simp_all add: n_def)
    have wft: "wf_arrays t" and nbt: "nbActive t = int (m + c)"
      and dimt: "indexesPositionLength t = indexesPositionLength r"
      and old: "\<And>i. i < m \<Longrightarrow> activeIndexes t ! i = activeIndexes r ! i \<and> values t ! i = values r ! i"
      and new: "\<And>i. i < c \<Longrightarrow> activeIndexes t ! (m + i) = is ! i \<and> values t ! (m + i) = vs ! i"
      and out: "\<And>k. k < nat (indexesPositionLength r) \<Longrightarrow> int k \<notin> set (take c is) \<Longrightarrow>
                  indexesPosition t ! k = indexesPosition r ! k"
      and pos: "\<And>i. i < c \<Longrightarrow> \<exists>i'<c. is ! i' = is ! i \<and> indexesPosition t ! nat (is ! i) = int (m + i')"
      using Qt unfolding Q_def by blast+
    have k: "k < nat (indexesPositionLength t)" and ik: "int k = is ! c"
      using cr by (simp_all add: k_def dimt)
    have smallt: "nbActive t + 1 \<le> 715827882"
      using small c by (simp add: nbt nbr n_def)
    obtain t' where run: "appendEntry t (int k) (vs ! c) = Inr t'" and wf': "wf_arrays t'"
      and nb': "nbActive t' = nbActive t + 1"
      and dim': "indexesPositionLength t' = indexesPositionLength t"
      and ip': "indexesPosition t' = (indexesPosition t)[k := nbActive t]"
      and keep: "\<And>i. i < nat (nbActive t) \<Longrightarrow>
                  activeIndexes t' ! i = activeIndexes t ! i \<and> values t' ! i = values t ! i"
      and last: "activeIndexes t' ! nat (nbActive t) = int k" "values t' ! nat (nbActive t) = vs ! c"
      using appendEntry_explicit[OF wft k smallt, of "vs ! c"] by blast
    have nnb: "nat (nbActive t) = m + c" using nbt by simp
    have lip: "length (indexesPosition t) = nat (indexesPositionLength r)"
      using inv_lengths(1)[OF wft] by (simp add: dimt)
    have q1: "\<forall>i<m. activeIndexes t' ! i = activeIndexes r ! i \<and> values t' ! i = values r ! i"
      using keep old by (simp add: nnb)
    have q2: "\<forall>i<Suc c. activeIndexes t' ! (m + i) = is ! i \<and> values t' ! (m + i) = vs ! i"
    proof (intro allI impI)
      fix i assume "i < Suc c"
      then consider "i < c" | "i = c" by linarith
      then show "activeIndexes t' ! (m + i) = is ! i \<and> values t' ! (m + i) = vs ! i"
      proof cases
        case 1
        then have "m + i < nat (nbActive t)" by (simp add: nnb)
        from keep[OF this] new[OF 1] show ?thesis by simp
      next
        case 2
        then show ?thesis using last by (simp add: nnb ik)
      qed
    qed
    have q3: "\<forall>k'<nat (indexesPositionLength r).
           int k' \<notin> set (take (Suc c) is) \<longrightarrow> indexesPosition t' ! k' = indexesPosition r ! k'"
    proof (intro allI impI)
      fix k' assume k': "k' < nat (indexesPositionLength r)"
        and notin: "int k' \<notin> set (take (Suc c) is)"
      have tk: "take (Suc c) is = take c is @ [is ! c]"
        using c by (simp add: take_Suc_conv_app_nth n_def)
      have "int k' \<noteq> is ! c" and ni: "int k' \<notin> set (take c is)" using notin by (simp_all add: tk)
      then have "k' \<noteq> k" using ik by auto
      then have "indexesPosition t' ! k' = indexesPosition t ! k'" by (simp add: ip')
      then show "indexesPosition t' ! k' = indexesPosition r ! k'" using out[OF k' ni] by simp
    qed
    have q4: "\<forall>i<Suc c. \<exists>i'<Suc c. is ! i' = is ! i \<and> indexesPosition t' ! nat (is ! i) = int (m + i')"
    proof (intro allI impI)
      fix i assume i: "i < Suc c"
      show "\<exists>i'<Suc c. is ! i' = is ! i \<and> indexesPosition t' ! nat (is ! i) = int (m + i')"
      proof (cases "is ! i = is ! c")
        case True
        have "indexesPosition t' ! k = int (m + c)" using k lip by (simp add: ip' nbt dimt)
        then have "is ! c = is ! i \<and> indexesPosition t' ! nat (is ! i) = int (m + c)"
          using True by (simp add: k_def)
        then show ?thesis by blast
      next
        case False
        then have ic: "i < c" using i by (cases "i = c") simp_all
        obtain i' where i': "i' < c" "is ! i' = is ! i"
          "indexesPosition t ! nat (is ! i) = int (m + i')"
          using pos[OF ic] by blast
        have "0 \<le> is ! i" using rng ic c by (simp add: n_def)
        then have "nat (is ! i) \<noteq> k" using False cr(1) by (simp add: k_def)
        then have "indexesPosition t' ! nat (is ! i) = int (m + i')" using i'(3) by (simp add: ip')
        then show ?thesis using i'(1,2) by (metis less_Suc_eq)
      qed
    qed
    have "Q (Suc c) t'"
      unfolding Q_def using wf' nb' nbt dim' dimt q1 q2 q3 q4 by simp
    then show ?thesis using run by (auto simp: insertEntry_def ik)
  qed
  have "\<exists>st. for_loop 0 (int n) body (map ValCell vs @ rest, r) = Inr st \<and> P (int n) st"
  proof (rule for_loop_rule)
    show "P 0 (map ValCell vs @ rest, r)" using wf nbr by (simp add: P_def Q_def)
    show "0 \<le> int n" by simp
    show "\<exists>t'. body j t = Inr t' \<and> P (j + 1) t'" if "0 \<le> j" "j < int n" "P j t" for j t
    proof -
      define c where "c = nat j"
      have c: "c < n" and j: "j = int c" using that(1,2) by (auto simp: c_def)
      obtain ifs u where t: "t = (ifs, u)" by (cases t)
      have ifs: "ifs = ValCell (vs ! c) # (map ValCell (drop (Suc c) vs) @ rest)"
        and Qu: "Q c u"
        using that(3) c lv by (simp_all add: P_def t j n_def Cons_nth_drop_Suc[symmetric])
      obtain u' where ins: "insertEntry u (is ! c) (vs ! c) = Inr u'" and Qu': "Q (Suc c) u'"
        using step[OF c Qu] by blast
      have "rd is (int c) = Inr (is ! c)" using c by (simp add: n_def)
      then have "body j t = Inr (map ValCell (drop (Suc c) vs) @ rest, u')"
        by (simp add: body_def t j ifs read_val_def ins)
      moreover have "P (j + 1) (map ValCell (drop (Suc c) vs) @ rest, u')"
        using Qu' by (simp add: P_def j nat_add_distrib)
      ultimately show ?thesis by blast
    qed
  qed
  then obtain st where run: "for_loop 0 (int n) body (map ValCell vs @ rest, r) = Inr st"
    and P: "P (int n) st" by blast
  obtain ifs r' where st: "st = (ifs, r')" by (cases st)
  have "ifs = rest" and Q: "Q n r'" using P lv by (simp_all add: P_def st n_def)
  have "for_loop 0 (int n) body (map ValCell vs @ rest, r) = Inr (rest, r')"
    using run st \<open>ifs = rest\<close> by simp
  then show ?thesis
    using Q unfolding Q_def body_def n_def m_def[symmetric] nbr
    by (intro exI[of _ r']) simp
qed

lemma SparseVector_resurrect_content:
  fixes r :: "'a::zero SparseVector" and rest :: "'a cell list"
  assumes wf: "wf_arrays r"
      and fl: "files d f = Some ([IntCell 1, IntCell (indexesPositionLength r),
                                    IntCell (int (length is))]
                                   @ map IntCell is @ map ValCell vs @ rest)"
      and lv: "length vs = length is"
      and rng: "\<forall>i<length is. 0 \<le> is ! i \<and> is ! i < indexesPositionLength r"
      and small: "nbActive r + int (length is) \<le> 715827882"
  shows "\<exists>r'. SparseVector_resurrect r f d = Inr r' \<and>
           wf_arrays r' \<and> nbActive r' = nbActive r + int (length is) \<and>
           indexesPositionLength r' = indexesPositionLength r \<and>
           (\<forall>i<nat (nbActive r). activeIndexes r' ! i = activeIndexes r ! i \<and>
                                  values r' ! i = values r ! i) \<and>
           (\<forall>i<length is. activeIndexes r' ! (nat (nbActive r) + i) = is ! i \<and>
                           values r' ! (nat (nbActive r) + i) = vs ! i) \<and>
           (\<forall>k<nat (indexesPositionLength r).
              int k \<notin> set is \<longrightarrow> indexesPosition r' ! k = indexesPosition r ! k) \<and>
           (\<forall>i<length is. \<exists>i'<length is. is ! i' = is ! i \<and>
              indexesPosition r' ! nat (is ! i) = nbActive r + int i')"
proof -
  have na: "new_array (int (length is)) (\<lambda>_. 0::int) = Inr (map (\<lambda>_. 0) [0..<length is])"
    by (simp add: new_array_def)
  have l1: "for_loop 0 (int (length is)) (\<lambda>position (ifs, ractiveIndexes).
                     andThen (read_int ifs) (\<lambda>(index, ifs').
                     andThen (wr ractiveIndexes position index) (\<lambda>ractiveIndexes'.
                     Inr (ifs', ractiveIndexes'))))
                   (map IntCell is @ map ValCell vs @ rest, map (\<lambda>_. 0) [0..<length is])
         = Inr (map ValCell vs @ rest, is)"
    by (rule read_indexes_loop) simp
  from insert_entries_loop[OF wf lv rng small, of rest]
  obtain r' where l2: "for_loop 0 (int (length is)) (\<lambda>position (ifs, s).
                     andThen (read_val ifs) (\<lambda>(rvalue, ifs').
                     andThen (rd is position) (\<lambda>index.
                     andThen (insertEntry s index rvalue) (\<lambda>s'.
                     Inr (ifs', s')))))
                   (map ValCell vs @ rest, r) = Inr (rest, r')"
    and props: "wf_arrays r' \<and> nbActive r' = nbActive r + int (length is) \<and>
           indexesPositionLength r' = indexesPositionLength r \<and>
           (\<forall>i<nat (nbActive r). activeIndexes r' ! i = activeIndexes r ! i \<and>
                                  values r' ! i = values r ! i) \<and>
           (\<forall>i<length is. activeIndexes r' ! (nat (nbActive r) + i) = is ! i \<and>
                           values r' ! (nat (nbActive r) + i) = vs ! i) \<and>
           (\<forall>k<nat (indexesPositionLength r).
              int k \<notin> set is \<longrightarrow> indexesPosition r' ! k = indexesPosition r ! k) \<and>
           (\<forall>i<length is. \<exists>i'<length is. is ! i' = is ! i \<and>
              indexesPosition r' ! nat (is ! i) = nbActive r + int i')"
    by blast
  have "SparseVector_resurrect r f d = Inr r'"
    by (simp add: SparseVector_resurrect_def fl read_int_IntCell na l1 l2)
  with props show ?thesis by blast
qed

subsection \<open>Active pairs, products and sums\<close>

lemma active_pairs_nth:
  assumes wf: "wf_arrays s"
  shows "active_pairs s = {(activeIndexes s ! i, values s ! i) | i. i < nat (nbActive s)}"
proof -
  note len = inv_lengths[OF wf]
  have m: "min (length (activeIndexes s)) (nat (nbActive s)) = nat (nbActive s)"
          "min (length (values s)) (nat (nbActive s)) = nat (nbActive s)"
    using len by simp_all
  show ?thesis
    unfolding active_pairs_def set_zip
  proof (intro set_eqI iffI)
    fix x assume "x \<in> {(take (nat (nbActive s)) (activeIndexes s) ! i,
                        take (nat (nbActive s)) (values s) ! i) | i.
                       i < min (length (take (nat (nbActive s)) (activeIndexes s)))
                               (length (take (nat (nbActive s)) (values s)))}"
    then obtain i where "i < nat (nbActive s)"
      "x = (take (nat (nbActive s)) (activeIndexes s) ! i, take (nat (nbActive s)) (values s) ! i)"
      by (auto simp: m)
    then have "i < nat (nbActive s) \<and> x = (activeIndexes s ! i, values s ! i)" by simp
    then show "x \<in> {(activeIndexes s ! i, values s ! i) | i. i < nat (nbActive s)}" by blast
  next
    fix x assume "x \<in> {(activeIndexes s ! i, values s ! i) | i. i < nat (nbActive s)}"
    then obtain i where i: "i < nat (nbActive s)" and x: "x = (activeIndexes s ! i, values s ! i)"
      by blast
    have "x = (take (nat (nbActive s)) (activeIndexes s) ! i, take (nat (nbActive s)) (values s) ! i)"
      using i x by simp
    moreover have "i < min (length (take (nat (nbActive s)) (activeIndexes s)))
                               (length (take (nat (nbActive s)) (values s)))"
      using i by (simp add: m)
    ultimately show "x \<in> {(take (nat (nbActive s)) (activeIndexes s) ! i,
                        take (nat (nbActive s)) (values s) ! i) | i.
                       i < min (length (take (nat (nbActive s)) (activeIndexes s)))
                               (length (take (nat (nbActive s)) (values s)))}"
      by blast
  qed
qed


lemma entry_at_position:
  assumes po: "position_inv s" and p: "p < nat (nbActive s)"
  shows "entry s (activeIndexes s ! p) = values s ! p"
  using position_invD(3)[OF po p] by (simp add: entry_def)

lemma ebeMultiplyToSelf_loop_correct:
  fixes s that :: "'a::mult_zero SparseVector"
  assumes that: "sparse_inv that"
  shows "sparse_inv s \<Longrightarrow> indexesPositionLength s = indexesPositionLength that \<Longrightarrow>
         pos \<le> nat (nbActive s) \<Longrightarrow> (\<forall>i<pos. values s ! i \<noteq> 0) \<Longrightarrow>
         \<exists>s'. ebeMultiplyToSelf_loop s that (int pos) = Inr s' \<and> sparse_inv s' \<and>
              indexesPositionLength s' = indexesPositionLength s \<and> no_explicit_zero s' \<and>
              (\<forall>k<nat (indexesPositionLength s).
                 entry s' (int k) =
                   (if indexesPosition s ! k = - 1 then 0
                    else if indexesPosition s ! k < int pos then entry s (int k)
                    else entry s (int k) * entry that (int k)))"
proof (induction "nat (nbActive s) - pos" arbitrary: s pos rule: less_induct)
  case less
  note inv = less.prems(1) and dim = less.prems(2) and pos = less.prems(3) and nz = less.prems(4)
  have wf: "wf_arrays s" and po: "position_inv s" and ab: "absent_inv s"
    using inv by (auto simp: sparse_inv_def)
  note len = inv_lengths[OF wf]
  show ?case
  proof (cases "pos < nat (nbActive s)")
    case False
    then have e: "pos = nat (nbActive s)" using pos by simp
    have stop: "\<not> int pos < nbActive s" using False by simp
    have "no_explicit_zero s" using nz by (simp add: no_explicit_zero_def e)
    moreover have "\<forall>k<nat (indexesPositionLength s).
                 entry s (int k) =
                   (if indexesPosition s ! k = - 1 then 0
                    else if indexesPosition s ! k < int pos then entry s (int k)
                    else entry s (int k) * entry that (int k))"
    proof (intro allI impI)
      fix k assume k: "k < nat (indexesPositionLength s)"
      show "entry s (int k) =
                   (if indexesPosition s ! k = - 1 then 0
                    else if indexesPosition s ! k < int pos then entry s (int k)
                    else entry s (int k) * entry that (int k))"
      proof (cases "indexesPosition s ! k = - 1")
        case True
        then show ?thesis by (simp add: entry_def)
      next
        case ne: False
        have "indexesPosition s ! k < int pos" using absent_invD(2)[OF ab k ne] e by simp
        then show ?thesis using ne by simp
      qed
    qed
    ultimately show ?thesis
      using inv stop by (subst ebeMultiplyToSelf_loop.simps) simp
  next
    case p: True
    define k0 where "k0 = nat (activeIndexes s ! pos)"
    note I = position_invD[OF po p]
    have k0: "k0 < nat (indexesPositionLength s)" and ik0: "int k0 = activeIndexes s ! pos"
      and ipk0: "indexesPosition s ! k0 = int pos"
      using I by (auto simp: k0_def)
    have go: "int pos < nbActive s" using p by simp
    have r1: "rd (activeIndexes s) (int pos) = Inr (int k0)"
      and r2: "rd (values s) (int pos) = Inr (values s ! pos)"
      using p len by (simp_all add: ik0)
    have g: "getEntry that (int k0) = Inr (entry that (int k0))"
      using k0 by (intro getEntry_entry[OF that]) (simp_all add: dim[symmetric])
    have mine: "entry s (int k0) = values s ! pos"
      using entry_at_position[OF po p] by (simp add: ik0)
    define v where "v = values s ! pos * entry that (int k0)"
    have only: "k = k0" if "k < nat (indexesPositionLength s)" "indexesPosition s ! k = int pos" for k
    proof -
      have "indexesPosition s ! k \<noteq> - 1" using that(2) by simp
      from absent_invD(3)[OF ab that(1) this] that(2) ik0 show ?thesis by simp
    qed
    show ?thesis
    proof (cases "v = 0")
      case nzv: False
      define s1 where "s1 = s\<lparr>values := (values s)[pos := v]\<rparr>"
      have w: "wr (values s) (int pos) v = Inr ((values s)[pos := v])"
        using p len by simp
      have step: "ebeMultiplyToSelf_loop s that (int pos) = ebeMultiplyToSelf_loop s1 that (int (pos + 1))"
        using go nzv
        by (subst ebeMultiplyToSelf_loop.simps)
           (simp add: r1 r2 g w s1_def v_def[symmetric] add.commute)
      have pre: "indexesPosition s ! k0 \<noteq> - 1" using ipk0 by simp
      obtain u where u: "updateEntry s (int k0) v (indexesPosition s ! k0) = Inr u"
        and invu: "sparse_inv u"
        and enu: "\<forall>j<nat (indexesPositionLength s).
              entry u (int j) = (if j = k0 then v else entry s (int j))"
        using updateEntry_correct[OF inv k0 pre, of v] by blast
      have "updateEntry s (int k0) v (indexesPosition s ! k0) = Inr s1"
        unfolding ipk0 s1_def by (rule updateEntry_explicit[OF wf p])
      then have us: "u = s1" using u by simp
      have inv1: "sparse_inv s1" and en1: "\<And>j. j < nat (indexesPositionLength s) \<Longrightarrow>
              entry s1 (int j) = (if j = k0 then v else entry s (int j))"
        using invu enu by (simp_all add: us)
      have sel1: "nbActive s1 = nbActive s" "indexesPositionLength s1 = indexesPositionLength s"
        "indexesPosition s1 = indexesPosition s"
        by (simp_all add: s1_def)
      have nz1: "\<forall>i<pos + 1. values s1 ! i \<noteq> 0"
        using nz nzv p len by (auto simp: s1_def nth_list_update less_Suc_eq)
      have "\<exists>s'. ebeMultiplyToSelf_loop s1 that (int (pos + 1)) = Inr s' \<and> sparse_inv s' \<and>
              indexesPositionLength s' = indexesPositionLength s1 \<and> no_explicit_zero s' \<and>
              (\<forall>k<nat (indexesPositionLength s1).
                 entry s' (int k) =
                   (if indexesPosition s1 ! k = - 1 then 0
                    else if indexesPosition s1 ! k < int (pos + 1) then entry s1 (int k)
                    else entry s1 (int k) * entry that (int k)))"
      proof (rule less.hyps)
        show "nat (nbActive s1) - (pos + 1) < nat (nbActive s) - pos" using p by (simp add: sel1)
        show "sparse_inv s1" by (rule inv1)
        show "indexesPositionLength s1 = indexesPositionLength that" using dim by (simp add: sel1)
        show "pos + 1 \<le> nat (nbActive s1)" using p by (simp add: sel1)
        show "\<forall>i<pos + 1. values s1 ! i \<noteq> 0" by (rule nz1)
      qed
      then obtain s' where run: "ebeMultiplyToSelf_loop s1 that (int (pos + 1)) = Inr s'"
        and inv': "sparse_inv s'" and dim': "indexesPositionLength s' = indexesPositionLength s"
        and nez: "no_explicit_zero s'"
        and en': "\<And>k. k < nat (indexesPositionLength s) \<Longrightarrow>
                 entry s' (int k) =
                   (if indexesPosition s ! k = - 1 then 0
                    else if indexesPosition s ! k < int pos + 1 then entry s1 (int k)
                    else entry s1 (int k) * entry that (int k))"
        unfolding sel1 by auto
      have "entry s' (int k) =
                   (if indexesPosition s ! k = - 1 then 0
                    else if indexesPosition s ! k < int pos then entry s (int k)
                    else entry s (int k) * entry that (int k))"
        if k: "k < nat (indexesPositionLength s)" for k
      proof (cases "k = k0")
        case True
        then show ?thesis using en'[OF k] en1[OF k] ipk0 mine by (simp add: v_def)
      next
        case False
        then have "indexesPosition s ! k \<noteq> int pos" using only[OF k] by blast
        then show ?thesis using en'[OF k] en1[OF k] False by auto
      qed
      then show ?thesis using step run inv' dim' nez by simp
    next
      case zv: True
      define n where "n = nat (nbActive s) - 1"
      define kA where "kA = nat (activeIndexes s ! n)"
      note F = swap_removed_facts[OF wf po p, folded n_def, folded kA_def k0_def]
      obtain s1 where run1: "removeEntry_at s (int pos) (int k0) = Inr s1"
        and inv1: "sparse_inv s1" and nb1: "nbActive s1 = nbActive s - 1"
        and dim1: "indexesPositionLength s1 = indexesPositionLength s"
        and vs1: "\<And>i. i < n \<Longrightarrow> values s1 ! i = (if i = pos then values s ! n else values s ! i)"
        and en1: "\<And>k. k < nat (indexesPositionLength s) \<Longrightarrow>
              entry s1 (int k) = (if k = k0 then 0 else entry s (int k))"
        using removeEntry_at_correct[OF inv p, of "int k0"] unfolding n_def k0_def by blast
      obtain s2 where run2: "removeEntry_at s (int pos) (int k0) = Inr s2"
        and ip2: "indexesPosition s2 = (indexesPosition s)[kA := int pos, k0 := - 1]"
        using removeEntry_at_position[OF wf po p, of "int k0"] unfolding n_def kA_def k0_def by blast
      have "s2 = s1" using run1 run2 by simp
      then have ip1: "indexesPosition s1 = (indexesPosition s)[kA := int pos, k0 := - 1]"
        using ip2 by simp
      have ip1_nth: "indexesPosition s1 ! k =
              (if k = k0 then - 1 else if k = kA then int pos else indexesPosition s ! k)"
        if "k < nat (indexesPositionLength s)" for k
        using that len(1) by (simp add: ip1 nth_list_update)
      have step: "ebeMultiplyToSelf_loop s that (int pos) = ebeMultiplyToSelf_loop s1 that (int pos)"
        using go zv
        by (subst ebeMultiplyToSelf_loop.simps)
           (simp add: r1 r2 g run1 v_def[symmetric])
      have nz1: "\<forall>i<pos. values s1 ! i \<noteq> 0"
      proof (intro allI impI)
        fix i assume i: "i < pos"
        then have "i < n" using F(2) by simp
        then show "values s1 ! i \<noteq> 0" using vs1[of i] i nz by simp
      qed
      have "\<exists>s'. ebeMultiplyToSelf_loop s1 that (int pos) = Inr s' \<and> sparse_inv s' \<and>
              indexesPositionLength s' = indexesPositionLength s1 \<and> no_explicit_zero s' \<and>
              (\<forall>k<nat (indexesPositionLength s1).
                 entry s' (int k) =
                   (if indexesPosition s1 ! k = - 1 then 0
                    else if indexesPosition s1 ! k < int pos then entry s1 (int k)
                    else entry s1 (int k) * entry that (int k)))"
      proof (rule less.hyps)
        show "nat (nbActive s1) - pos < nat (nbActive s) - pos" using p by (simp add: nb1)
        show "sparse_inv s1" by (rule inv1)
        show "indexesPositionLength s1 = indexesPositionLength that" using dim by (simp add: dim1)
        show "pos \<le> nat (nbActive s1)" using p by (simp add: nb1)
        show "\<forall>i<pos. values s1 ! i \<noteq> 0" by (rule nz1)
      qed
      then obtain s' where run: "ebeMultiplyToSelf_loop s1 that (int pos) = Inr s'"
        and inv': "sparse_inv s'" and dim': "indexesPositionLength s' = indexesPositionLength s"
        and nez: "no_explicit_zero s'"
        and en': "\<And>k. k < nat (indexesPositionLength s) \<Longrightarrow>
                 entry s' (int k) =
                   (if indexesPosition s1 ! k = - 1 then 0
                    else if indexesPosition s1 ! k < int pos then entry s1 (int k)
                    else entry s1 (int k) * entry that (int k))"
        unfolding dim1 by auto
      have "entry s' (int k) =
                   (if indexesPosition s ! k = - 1 then 0
                    else if indexesPosition s ! k < int pos then entry s (int k)
                    else entry s (int k) * entry that (int k))"
        if k: "k < nat (indexesPositionLength s)" for k
      proof (cases "k = k0")
        case True
        then show ?thesis using en'[OF k] ip1_nth[OF k] ipk0 mine zv by (simp add: v_def)
      next
        case nk0: False
        show ?thesis
        proof (cases "k = kA")
          case True
          have "indexesPosition s ! k = int n" using True F(7) by simp
          moreover have "pos \<le> n" by (rule F(2))
          ultimately show ?thesis using en'[OF k] ip1_nth[OF k] en1[OF k] nk0 True by simp
        next
          case False
          then show ?thesis using en'[OF k] ip1_nth[OF k] en1[OF k] nk0 by simp
        qed
      qed
      then show ?thesis using step run inv' dim' nez by simp
    qed
  qed
qed

lemma active_iff_nonzero:
  assumes inv: "sparse_inv s" and nez: "no_explicit_zero s"
      and k: "k < nat (indexesPositionLength s)"
  shows "indexesPosition s ! k = - 1 \<longleftrightarrow> entry s (int k) = 0"
proof
  assume "indexesPosition s ! k = - 1"
  then show "entry s (int k) = 0" by (simp add: entry_def)
next
  assume z: "entry s (int k) = 0"
  show "indexesPosition s ! k = - 1"
  proof (rule ccontr)
    assume ne: "indexesPosition s ! k \<noteq> - 1"
    have ab: "absent_inv s" using inv by (simp add: sparse_inv_def)
    note D = absent_invD[OF ab k ne]
    have "nat (indexesPosition s ! k) \<in> {0..<nat (nbActive s)}" using D(1,2) by simp
    then have "values s ! nat (indexesPosition s ! k) \<noteq> 0"
      using nez unfolding no_explicit_zero_def by blast
    then show False using z ne by (simp add: entry_def)
  qed
qed









lemma no_explicit_zero_iff:
  assumes inv: "sparse_inv s"
  shows "no_explicit_zero s \<longleftrightarrow>
           (\<forall>k<nat (indexesPositionLength s). indexesPosition s ! k \<noteq> - 1 \<longrightarrow> entry s (int k) \<noteq> 0)"
proof
  assume nez: "no_explicit_zero s"
  show "\<forall>k<nat (indexesPositionLength s). indexesPosition s ! k \<noteq> - 1 \<longrightarrow> entry s (int k) \<noteq> 0"
    using active_iff_nonzero[OF inv nez] by blast
next
  assume r: "\<forall>k<nat (indexesPositionLength s). indexesPosition s ! k \<noteq> - 1 \<longrightarrow> entry s (int k) \<noteq> 0"
  have po: "position_inv s" using inv by (simp add: sparse_inv_def)
  show "no_explicit_zero s"
    unfolding no_explicit_zero_def
  proof (intro ballI)
    fix i assume "i \<in> {0..<nat (nbActive s)}"
    then have i: "i < nat (nbActive s)" by simp
    note I = position_invD[OF po i]
    define k where "k = nat (activeIndexes s ! i)"
    have k: "k < nat (indexesPositionLength s)" and ik: "int k = activeIndexes s ! i"
      and ipk: "indexesPosition s ! k = int i"
      using I by (simp_all add: k_def)
    have "indexesPosition s ! k \<noteq> - 1" using ipk by simp
    then have "entry s (int k) \<noteq> 0" using r k by blast
    then show "values s ! i \<noteq> 0" using entry_at_position[OF po i] by (simp add: ik)
  qed
qed

text \<open>
  \<open>setEntry\<close> itself keeps active positions free of zeros, as \<open>ebeMultiplyToSelf\<close>
  does: the zero test is what \<open>addToSelf\<close> and \<open>ebeAddConstantToSelf\<close> leave out.
\<close>

lemma setEntry_keeps_no_explicit_zero:
  fixes s :: "'a::zero SparseVector"
  assumes inv: "sparse_inv s" and nez: "no_explicit_zero s"
      and k: "0 \<le> k" "k < dimension s"
      and small: "nbActive s + 1 \<le> 715827882"
  shows "\<exists>s'. setEntry s k v = Inr s' \<and> sparse_inv s' \<and> no_explicit_zero s'"
proof -
  define j where "j = nat k"
  have j: "j < nat (indexesPositionLength s)" and kj: "k = int j"
    using k by (auto simp: j_def dimension_def)
  note old = no_explicit_zero_iff[OF inv, THEN iffD1, OF nez, rule_format]
  show ?thesis
  proof (cases "v = 0")
    case True
    obtain s' where run: "removeEntry s (int j) = Inr s'" and inv': "sparse_inv s'"
      and dim': "indexesPositionLength s' = indexesPositionLength s"
      and gone: "indexesPosition s' ! j = - 1"
      and en: "\<And>i. i < nat (indexesPositionLength s) \<Longrightarrow>
                 entry s' (int i) = (if i = j then 0 else entry s (int i))"
      and st: "\<And>i. i < nat (indexesPositionLength s) \<Longrightarrow> i \<noteq> j \<Longrightarrow>
                 (indexesPosition s' ! i = - 1 \<longleftrightarrow> indexesPosition s ! i = - 1)"
      using removeEntry_correct[OF inv j] by blast
    have "\<forall>i<nat (indexesPositionLength s'). indexesPosition s' ! i \<noteq> - 1 \<longrightarrow> entry s' (int i) \<noteq> 0"
    proof (intro allI impI)
      fix i assume i: "i < nat (indexesPositionLength s')" and a: "indexesPosition s' ! i \<noteq> - 1"
      have i': "i < nat (indexesPositionLength s)" using i by (simp add: dim')
      have ne: "i \<noteq> j" using a gone by auto
      then have "indexesPosition s ! i \<noteq> - 1" using st[OF i' ne] a by simp
      then show "entry s' (int i) \<noteq> 0" using old[OF i'] en[OF i'] ne by simp
    qed
    then have "no_explicit_zero s'" using no_explicit_zero_iff[OF inv'] by blast
    then show ?thesis using True run inv' by (simp add: setEntry_def kj)
  next
    case False
    obtain s' where run: "setNonZeroEntry s (int j) v = Inr s'" and inv': "sparse_inv s'"
      and dim': "indexesPositionLength s' = indexesPositionLength s"
      and en: "\<And>i. i < nat (indexesPositionLength s) \<Longrightarrow>
                 entry s' (int i) = (if i = j then v else entry s (int i))"
      and st: "\<And>i. i < nat (indexesPositionLength s) \<Longrightarrow> i \<noteq> j \<Longrightarrow>
                 (indexesPosition s' ! i = - 1 \<longleftrightarrow> indexesPosition s ! i = - 1)"
      using setNonZeroEntry_correct[OF inv j small, of v] by blast
    have "\<forall>i<nat (indexesPositionLength s'). indexesPosition s' ! i \<noteq> - 1 \<longrightarrow> entry s' (int i) \<noteq> 0"
    proof (intro allI impI)
      fix i assume i: "i < nat (indexesPositionLength s')" and a: "indexesPosition s' ! i \<noteq> - 1"
      have i': "i < nat (indexesPositionLength s)" using i by (simp add: dim')
      show "entry s' (int i) \<noteq> 0"
      proof (cases "i = j")
        case True
        then show ?thesis using en[OF i'] False by simp
      next
        case ne: False
        then have "indexesPosition s ! i \<noteq> - 1" using st[OF i' ne] a by simp
        then show ?thesis using old[OF i'] en[OF i'] ne by simp
      qed
    qed
    then have "no_explicit_zero s'" using no_explicit_zero_iff[OF inv'] by blast
    then show ?thesis using False run inv' by (simp add: setEntry_def kj)
  qed
qed


subsection \<open>The constructor\<close>

lemma SparseVector_new_fresh:
  assumes "SparseVector_new n len junkI junkV = Inr r0"
  shows "wf_arrays r0" "nbActive r0 = 0" "indexesPositionLength r0 = n"
        "\<And>k. k < nat n \<Longrightarrow> indexesPosition r0 ! k = - 1"
proof -
  have n: "0 \<le> n" and len: "0 \<le> len"
    using assms by (auto simp: SparseVector_new_def new_array_def split: if_splits)
  have "fill_range (map junkI [0..<nat n]) 0 n (- 1) = Inr (replicate (nat n) (- 1))"
    using n by (simp add: fill_range_def)
  then have r0: "r0 = \<lparr>indexesPositionLength = n, activeIndexesLength = len, nbActive = 0,
          indexesPosition = replicate (nat n) (- 1), activeIndexes = map junkI [0..<nat len],
          values = map junkV [0..<nat len]\<rparr>"
    using assms n len by (simp add: SparseVector_new_def new_array_def)
  show "wf_arrays r0" using n len by (simp add: r0 wf_arrays_def)
  show "nbActive r0 = 0" "indexesPositionLength r0 = n" by (simp_all add: r0)
  show "indexesPosition r0 ! k = - 1" if "k < nat n" for k using that by (simp add: r0)
qed

lemma SparseVector_new_inv:
  fixes r0 :: "'a::zero SparseVector"
  assumes "SparseVector_new n len junkI junkV = Inr r0"
  shows "sparse_inv r0" and "no_explicit_zero r0"
proof -
  note f = SparseVector_new_fresh[OF assms]
  have "position_inv r0" by (simp add: position_inv_def f(2))
  moreover have "absent_inv r0" using f(4) by (simp add: absent_inv_def f(3))
  ultimately show "sparse_inv r0" using f(1) by (simp add: sparse_inv_def)
  show "no_explicit_zero r0" by (simp add: no_explicit_zero_def f(2))
qed



subsection \<open>Copies in memory\<close>

lemma mem_setEntry_frame:
  fixes m :: "'a::zero memory"
  assumes sep: "sparse_separate m p q" and al: "sparse_allocated m p"
      and run: "mem_setEntry m q k v = Inr m'"
  shows "load_sparse m' p = load_sparse m p \<and> sparse_allocated m' p"
proof -
  obtain a b where a: "sparse_objects m p = Some a" and b: "sparse_objects m q = Some b"
    using sep by (auto simp: sparse_separate_def split: option.splits)
  have ne: "p \<noteq> q"
    "p_indexesPosition a \<noteq> p_indexesPosition b" "p_indexesPosition a \<noteq> p_activeIndexes b"
    "p_activeIndexes a \<noteq> p_indexesPosition b" "p_activeIndexes a \<noteq> p_activeIndexes b"
    "p_values a \<noteq> p_values b"
    using sep by (simp_all add: sparse_separate_def a b)
  have lt: "p < lim m" "p_indexesPosition a < lim m" "p_activeIndexes a < lim m" "p_values a < lim m"
    using al by (simp_all add: sparse_allocated_def a)
  obtain s' :: "'a SparseVector" where st: "store_sparse m q s' = Inr m'"
    using run by (auto simp: mem_setEntry_def andThen_def split: sum.splits)
  show ?thesis
  proof (cases "activeIndexesLength s' = o_activeIndexesLength b")
    case True
    then have m': "m' = m\<lparr>int_arrays := (int_arrays m)(p_indexesPosition b \<mapsto> indexesPosition s',
                                                  p_activeIndexes b \<mapsto> activeIndexes s'),
                   val_arrays := (val_arrays m)(p_values b \<mapsto> values s'),
                   sparse_objects := (sparse_objects m)(q \<mapsto> b\<lparr>o_nbActive := nbActive s'\<rparr>)\<rparr>"
      using st by (simp add: store_sparse_def b)
    show ?thesis using ne lt by (simp add: m' load_sparse_def sparse_allocated_def a cong: option.case_cong)
  next
    case False
    then have m': "m' = m\<lparr>int_arrays := ((int_arrays m)(p_activeIndexes b := None))
                                     (p_indexesPosition b \<mapsto> indexesPosition s',
                                      lim m \<mapsto> activeIndexes s'),
                   val_arrays := ((val_arrays m)(p_values b := None))
                                     (Suc (lim m) \<mapsto> values s'),
                   sparse_objects := (sparse_objects m)(q \<mapsto>
                      b\<lparr>o_activeIndexesLength := activeIndexesLength s', o_nbActive := nbActive s',
                         p_activeIndexes := lim m, p_values := Suc (lim m)\<rparr>),
                   lim := lim m + 2\<rparr>"
      using st by (simp add: store_sparse_def b)
    show ?thesis using ne lt by (simp add: m' load_sparse_def sparse_allocated_def a cong: option.case_cong)
  qed
qed

lemma SparseVector_copy_deep:
  fixes m :: "'a::zero memory"
  assumes ld: "load_sparse m p = Inr s" and wf: "wf_arrays s" and al: "sparse_allocated m p"
  shows "\<exists>q m' c. SparseVector_copy m p junkI junkV = Inr (q, m') \<and>
           load_sparse m' p = Inr s \<and> sparse_allocated m' p \<and> sparse_separate m' p q \<and>
           load_sparse m' q = Inr c \<and> wf_arrays c \<and>
           indexesPositionLength c = indexesPositionLength s \<and>
           activeIndexesLength c = activeIndexesLength s \<and> nbActive c = nbActive s \<and>
           indexesPosition c = indexesPosition s \<and>
           take (nat (nbActive s)) (activeIndexes c) = take (nat (nbActive s)) (activeIndexes s) \<and>
           take (nat (nbActive s)) (values c) = take (nat (nbActive s)) (values s)"
proof -
  obtain a where a: "sparse_objects m p = Some a"
    using al by (auto simp: sparse_allocated_def split: option.splits)
  have lt: "p < lim m" "p_indexesPosition a < lim m" "p_activeIndexes a < lim m" "p_values a < lim m"
    using al by (simp_all add: sparse_allocated_def a)
  note len = inv_lengths[OF wf]
  have b: "0 \<le> indexesPositionLength s" "0 \<le> activeIndexesLength s" "0 \<le> nbActive s"
    "nbActive s \<le> activeIndexesLength s"
    using wf by (simp_all add: wf_arrays_def)
  define ip where "ip = indexesPosition s"
  define ai where "ai = take (nat (nbActive s)) (activeIndexes s)
                        @ drop (nat (nbActive s)) (map junkI [0..<nat (activeIndexesLength s)])"
  define vs where "vs = take (nat (nbActive s)) (values s)
                        @ drop (nat (nbActive s)) (map junkV [0..<nat (activeIndexesLength s)])"
  define c where "c = \<lparr>indexesPositionLength = indexesPositionLength s,
                        activeIndexesLength = activeIndexesLength s, nbActive = nbActive s,
                        indexesPosition = ip, activeIndexes = ai, values = vs\<rparr>"
  have c1: "copy_into (indexesPosition s) (indexesPositionLength s)
              (map junkI [0..<nat (indexesPositionLength s)]) = Inr ip"
    using b len by (simp add: copy_into_def ip_def)
  have c2: "copy_into (activeIndexes s) (nbActive s)
              (map junkI [0..<nat (activeIndexesLength s)]) = Inr ai"
    using b len by (simp add: copy_into_def ai_def)
  have c3: "copy_into (values s) (nbActive s)
              (map junkV [0..<nat (activeIndexesLength s)]) = Inr vs"
    using b len by (simp add: copy_into_def vs_def)
  have run: "SparseVector_copy m p junkI junkV = Inr (new_sparse m c)"
    using b by (simp add: SparseVector_copy_def ld new_array_def c1 c2 c3 c_def)
  obtain q m' where qm: "new_sparse m c = (q, m')" by (cases "new_sparse m c")
  have q: "q = lim m + 3" and m': "m' = m\<lparr>int_arrays := (int_arrays m)(lim m \<mapsto> indexesPosition c,
                                        lim m + 1 \<mapsto> activeIndexes c),
        val_arrays := (val_arrays m)(lim m + 2 \<mapsto> values c),
        sparse_objects := (sparse_objects m)(lim m + 3 \<mapsto>
           \<lparr>o_indexesPositionLength = indexesPositionLength c,
            o_activeIndexesLength = activeIndexesLength c, o_nbActive = nbActive c,
            p_indexesPosition = lim m, p_activeIndexes = lim m + 1, p_values = lim m + 2\<rparr>),
        lim := lim m + 4\<rparr>"
    using qm by (auto simp: new_sparse_def)
  have 1: "load_sparse m' p = Inr s"
    using ld lt by (simp add: m' load_sparse_def a cong: option.case_cong)
  have 2: "sparse_allocated m' p" using lt by (simp add: m' sparse_allocated_def a)
  have 3: "sparse_separate m' p q" using lt by (simp add: m' q sparse_separate_def a)
  have 4: "load_sparse m' q = Inr c" by (simp add: m' q load_sparse_def)
  have 5: "take (nat (nbActive s)) (activeIndexes c) = take (nat (nbActive s)) (activeIndexes s)"
          "take (nat (nbActive s)) (values c) = take (nat (nbActive s)) (values s)"
    using len by (simp_all add: c_def ai_def vs_def)
  have 6: "wf_arrays c"
    using wf len b by (simp add: wf_arrays_def c_def ai_def vs_def ip_def)
  show ?thesis
    using run qm 1 2 3 4 5 6 by (simp add: c_def ip_def)
qed

lemma SparseVector_assign_deep:
  fixes m :: "'a::zero memory"
  assumes sep: "sparse_separate m this that"
      and ld: "load_sparse m that = Inr s" and wf: "wf_arrays s" and al: "sparse_allocated m that"
  shows "\<exists>m' c. SparseVector_assign m this that junkI junkV = Inr m' \<and>
           load_sparse m' that = Inr s \<and> sparse_allocated m' that \<and> sparse_separate m' that this \<and>
           load_sparse m' this = Inr c \<and> wf_arrays c \<and>
           indexesPositionLength c = indexesPositionLength s \<and>
           activeIndexesLength c = activeIndexesLength s \<and> nbActive c = nbActive s \<and>
           indexesPosition c = indexesPosition s \<and>
           take (nat (nbActive s)) (activeIndexes c) = take (nat (nbActive s)) (activeIndexes s) \<and>
           take (nat (nbActive s)) (values c) = take (nat (nbActive s)) (values s)"
proof -
  obtain a b where a: "sparse_objects m this = Some a" and b: "sparse_objects m that = Some b"
    using sep by (auto simp: sparse_separate_def split: option.splits)
  have ne: "this \<noteq> that"
    "p_indexesPosition a \<noteq> p_indexesPosition b" "p_indexesPosition a \<noteq> p_activeIndexes b"
    "p_activeIndexes a \<noteq> p_indexesPosition b" "p_activeIndexes a \<noteq> p_activeIndexes b"
    "p_values a \<noteq> p_values b"
    using sep by (simp_all add: sparse_separate_def a b)
  have lt: "that < lim m" "p_indexesPosition b < lim m" "p_activeIndexes b < lim m"
    "p_values b < lim m"
    using al by (simp_all add: sparse_allocated_def b)
  note len = inv_lengths[OF wf]
  have bd: "0 \<le> indexesPositionLength s" "0 \<le> activeIndexesLength s" "0 \<le> nbActive s"
    "nbActive s \<le> activeIndexesLength s"
    using wf by (simp_all add: wf_arrays_def)
  define m1 where "m1 = m\<lparr>int_arrays := (int_arrays m)(p_indexesPosition a := None,
                                                     p_activeIndexes a := None),
                        val_arrays := (val_arrays m)(p_values a := None)\<rparr>"
  define ip where "ip = indexesPosition s"
  define ai where "ai = take (nat (nbActive s)) (activeIndexes s)
                        @ drop (nat (nbActive s)) (map junkI [0..<nat (activeIndexesLength s)])"
  define vs where "vs = take (nat (nbActive s)) (values s)
                        @ drop (nat (nbActive s)) (map junkV [0..<nat (activeIndexesLength s)])"
  define c where "c = \<lparr>indexesPositionLength = indexesPositionLength s,
                        activeIndexesLength = activeIndexesLength s, nbActive = nbActive s,
                        indexesPosition = ip, activeIndexes = ai, values = vs\<rparr>"
  define m' where "m' = m1\<lparr>int_arrays := (int_arrays m1)(lim m \<mapsto> ip, lim m + 1 \<mapsto> ai),
                     val_arrays := (val_arrays m1)(lim m + 2 \<mapsto> vs),
                     sparse_objects := (sparse_objects m1)(this \<mapsto>
                        \<lparr>o_indexesPositionLength = indexesPositionLength s,
                         o_activeIndexesLength = activeIndexesLength s, o_nbActive = nbActive s,
                         p_indexesPosition = lim m, p_activeIndexes = lim m + 1,
                         p_values = lim m + 2\<rparr>),
                     lim := lim m + 3\<rparr>"
  have ld1: "load_sparse m1 that = Inr s"
    using ld ne by (simp add: m1_def load_sparse_def b cong: option.case_cong)
  have c1: "copy_into (indexesPosition s) (indexesPositionLength s)
              (map junkI [0..<nat (indexesPositionLength s)]) = Inr ip"
    using bd len by (simp add: copy_into_def ip_def)
  have c2: "copy_into (activeIndexes s) (nbActive s)
              (map junkI [0..<nat (activeIndexesLength s)]) = Inr ai"
    using bd len by (simp add: copy_into_def ai_def)
  have c3: "copy_into (values s) (nbActive s)
              (map junkV [0..<nat (activeIndexesLength s)]) = Inr vs"
    using bd len by (simp add: copy_into_def vs_def)
  have run: "SparseVector_assign m this that junkI junkV = Inr m'"
    using bd ne(1)
    by (simp add: SparseVector_assign_def a Let_def m1_def[symmetric] ld1 new_array_def c1 c2 c3
          m'_def)
  have 1: "load_sparse m' that = Inr s"
    using ld ne lt by (simp add: m'_def m1_def load_sparse_def b cong: option.case_cong)
  have 2: "sparse_allocated m' that" using lt ne(1) by (simp add: m'_def m1_def sparse_allocated_def b)
  have 3: "sparse_separate m' that this"
    using lt ne(1) by (simp add: m'_def m1_def sparse_separate_def b)
  have 4: "load_sparse m' this = Inr c" by (simp add: m'_def m1_def load_sparse_def c_def)
  have 5: "take (nat (nbActive s)) (activeIndexes c) = take (nat (nbActive s)) (activeIndexes s)"
          "take (nat (nbActive s)) (values c) = take (nat (nbActive s)) (values s)"
    using len by (simp_all add: c_def ai_def vs_def)
  have 6: "wf_arrays c"
    using wf len bd by (simp add: wf_arrays_def c_def ai_def vs_def ip_def)
  show ?thesis
    using run 1 2 3 4 5 6 by (simp add: c_def ip_def)
qed

lemma mem_dense_put_frame:
  assumes sep: "dense_separate m p q" and al: "dense_allocated m p"
      and run: "mem_dense_put m q i x = Inr m'"
  shows "load_dense m' p = load_dense m p \<and> dense_allocated m' p"
proof -
  obtain a b where a: "dense_objects m p = Some a" and b: "dense_objects m q = Some b"
    using sep by (auto simp: dense_separate_def split: option.splits)
  have ne: "p \<noteq> q" "p_data a \<noteq> p_data b" using sep by (simp_all add: dense_separate_def a b)
  obtain xs where "m' = m\<lparr>val_arrays := (val_arrays m)(p_data b \<mapsto> xs)\<rparr>"
    using run by (auto simp: mem_dense_put_def b andThen_def split: sum.splits if_splits)
  then show ?thesis using ne al by (simp add: load_dense_def dense_allocated_def a)
qed

lemma DenseVector_copy_deep:
  assumes ld: "load_dense m p = Inr v" and wf: "capacity v = int (length (data v))"
      and al: "dense_allocated m p"
  shows "\<exists>q m'. DenseVector_copy m p junk = Inr (q, m') \<and>
           load_dense m' p = Inr v \<and> dense_allocated m' p \<and> dense_separate m' p q \<and>
           load_dense m' q = Inr v"
proof -
  obtain a where a: "dense_objects m p = Some a"
    using al by (auto simp: dense_allocated_def split: option.splits)
  have lt: "p < lim m" "p_data a < lim m" using al by (simp_all add: dense_allocated_def a)
  have cp: "copy_into (data v) (capacity v) (map junk [0..<nat (capacity v)]) = Inr (data v)"
    using wf by (simp add: copy_into_def)
  define m' where "m' = m\<lparr>val_arrays := (val_arrays m)(lim m \<mapsto> data v),
            dense_objects := (dense_objects m)(lim m + 1 \<mapsto>
               \<lparr>o_capacity = capacity v, p_data = lim m\<rparr>),
            lim := lim m + 2\<rparr>"
  have c0: "\<not> capacity v < 0" using wf by simp
  have run: "DenseVector_copy m p junk = Inr (lim m + 1, m')"
    using c0 by (simp add: DenseVector_copy_def ld new_array_def cp m'_def)
  have 1: "load_dense m' p = Inr v"
    using ld lt by (simp add: m'_def load_dense_def a cong: option.case_cong)
  have 2: "dense_allocated m' p" using lt by (simp add: m'_def dense_allocated_def a)
  have 3: "dense_separate m' p (lim m + 1)" using lt by (simp add: m'_def dense_separate_def a)
  have 4: "load_dense m' (lim m + 1) = Inr v" by (simp add: m'_def load_dense_def)
  show ?thesis using run 1 2 3 4 by blast
qed

lemma DenseVector_assign_deep:
  assumes sep: "dense_separate m this that"
      and ld: "load_dense m that = Inr v" and wf: "capacity v = int (length (data v))"
      and al: "dense_allocated m that"
  shows "\<exists>m'. DenseVector_assign m this that junk = Inr m' \<and>
           load_dense m' that = Inr v \<and> dense_allocated m' that \<and> dense_separate m' that this \<and>
           load_dense m' this = Inr v"
proof -
  obtain a b where a: "dense_objects m this = Some a" and b: "dense_objects m that = Some b"
    using sep by (auto simp: dense_separate_def split: option.splits)
  have ne: "this \<noteq> that" "p_data a \<noteq> p_data b" using sep by (simp_all add: dense_separate_def a b)
  have lt: "that < lim m" "p_data b < lim m" using al by (simp_all add: dense_allocated_def b)
  define m1 where "m1 = m\<lparr>val_arrays := (val_arrays m)(p_data a := None)\<rparr>"
  define m' where "m' = m1\<lparr>val_arrays := (val_arrays m1)(lim m \<mapsto> data v),
                     dense_objects := (dense_objects m1)(this \<mapsto>
                        \<lparr>o_capacity = capacity v, p_data = lim m\<rparr>),
                     lim := lim m + 1\<rparr>"
  have ld1: "load_dense m1 that = Inr v"
    using ld ne by (simp add: m1_def load_dense_def b cong: option.case_cong)
  have cp: "copy_into (data v) (capacity v) (map junk [0..<nat (capacity v)]) = Inr (data v)"
    using wf by (simp add: copy_into_def)
  have c0: "\<not> capacity v < 0" using wf by simp
  have run: "DenseVector_assign m this that junk = Inr m'"
    using c0 ne(1)
    by (simp add: DenseVector_assign_def a Let_def m1_def[symmetric] ld1 new_array_def cp m'_def)
  have 1: "load_dense m' that = Inr v"
    using ld ne lt by (simp add: m'_def m1_def load_dense_def b cong: option.case_cong)
  have 2: "dense_allocated m' that" using lt ne(1) by (simp add: m'_def m1_def dense_allocated_def b)
  have 3: "dense_separate m' that this" using lt ne(1) by (simp add: m'_def m1_def dense_separate_def b)
  have 4: "load_dense m' this = Inr v" by (simp add: m'_def m1_def load_dense_def)
  show ?thesis using run 1 2 3 4 by blast
qed

lemma copy_agrees:
  fixes s c :: "'a::zero SparseVector"
  assumes inv: "sparse_inv s" and wfc: "wf_arrays c"
      and dim: "indexesPositionLength c = indexesPositionLength s"
      and nb: "nbActive c = nbActive s"
      and ip: "indexesPosition c = indexesPosition s"
      and ai: "take (nat (nbActive s)) (activeIndexes c) = take (nat (nbActive s)) (activeIndexes s)"
      and vs: "take (nat (nbActive s)) (values c) = take (nat (nbActive s)) (values s)"
  shows "sparse_inv c" and "0 \<le> j \<Longrightarrow> j < indexesPositionLength s \<Longrightarrow> getEntry c j = getEntry s j"
proof -
  have po: "position_inv s" and ab: "absent_inv s" using inv by (auto simp: sparse_inv_def)
  have ai_nth: "activeIndexes c ! i = activeIndexes s ! i" if "i < nat (nbActive s)" for i
    using nth_take[OF that, of "activeIndexes c"] nth_take[OF that, of "activeIndexes s"] ai by simp
  have vs_nth: "values c ! i = values s ! i" if "i < nat (nbActive s)" for i
    using nth_take[OF that, of "values c"] nth_take[OF that, of "values s"] vs by simp
  have poc: "position_inv c"
    unfolding position_inv_def
  proof (intro ballI)
    fix i assume "i \<in> {0..<nat (nbActive c)}"
    then have i: "i < nat (nbActive s)" by (simp add: nb)
    show "0 \<le> activeIndexes c ! i \<and> activeIndexes c ! i < indexesPositionLength c \<and>
          indexesPosition c ! nat (activeIndexes c ! i) = int i"
      using position_invD[OF po i] by (simp add: ai_nth[OF i] dim ip)
  qed
  have abc: "absent_inv c"
    unfolding absent_inv_def
  proof (intro ballI)
    fix k assume "k \<in> {0..<nat (indexesPositionLength c)}"
    then have k: "k < nat (indexesPositionLength s)" by (simp add: dim)
    show "indexesPosition c ! k = - 1 \<or>
         (0 \<le> indexesPosition c ! k \<and> indexesPosition c ! k < nbActive c \<and>
          activeIndexes c ! nat (indexesPosition c ! k) = int k)"
    proof (cases "indexesPosition s ! k = - 1")
      case True
      then show ?thesis by (simp add: ip)
    next
      case False
      note D = absent_invD[OF ab k False]
      have "nat (indexesPosition s ! k) < nat (nbActive s)" using D(1,2) by simp
      from ai_nth[OF this] D show ?thesis by (simp add: ip nb)
    qed
  qed
  show invc: "sparse_inv c" using wfc poc abc by (simp add: sparse_inv_def)
  show "getEntry c j = getEntry s j" if j0: "0 \<le> j" and j1: "j < indexesPositionLength s"
  proof -
    have "getEntry c j = Inr (entry c j)"
      using j1 by (intro getEntry_entry[OF invc j0]) (simp add: dim)
    moreover have "getEntry s j = Inr (entry s j)" by (rule getEntry_entry[OF inv j0 j1])
    moreover have "entry c j = entry s j"
    proof (cases "indexesPosition s ! nat j = - 1")
      case True
      then show ?thesis by (simp add: entry_def ip)
    next
      case False
      have k: "nat j < nat (indexesPositionLength s)" using j0 j1 by simp
      note D = absent_invD[OF ab k False]
      have "nat (indexesPosition s ! nat j) < nat (nbActive s)" using D(1,2) by simp
      from vs_nth[OF this] False show ?thesis by (simp add: entry_def ip)
    qed
    ultimately show ?thesis by simp
  qed
qed

lemma mem_setEntry_succeeds:
  fixes m :: "'a::zero memory"
  assumes ld: "load_sparse m q = Inr c" and inv: "sparse_inv c"
      and k: "0 \<le> k" "k < indexesPositionLength c"
      and small: "nbActive c + 1 \<le> 715827882"
  shows "\<exists>m'. mem_setEntry m q k v = Inr m'"
proof -
  have kk: "nat k < nat (indexesPositionLength c)" and ik: "int (nat k) = k" using k by simp_all
  have "\<exists>c'. setEntry c k v = Inr c'"
  proof (cases "v = 0")
    case True
    obtain c' where "removeEntry c (int (nat k)) = Inr c'"
      using removeEntry_correct[OF inv kk] by blast
    then show ?thesis using True k(1) by (simp add: setEntry_def)
  next
    case False
    obtain c' where "setNonZeroEntry c (int (nat k)) v = Inr c'"
      using setNonZeroEntry_correct[OF inv kk small, of v] by blast
    then show ?thesis using False k(1) by (simp add: setEntry_def)
  qed
  then obtain c' where c': "setEntry c k v = Inr c'" by blast
  obtain ob where "sparse_objects m q = Some ob"
    using ld by (auto simp: load_sparse_def split: option.splits)
  then have "\<exists>m'. store_sparse m q c' = Inr m'" by (simp add: store_sparse_def)
  then show ?thesis by (simp add: mem_setEntry_def ld c')
qed

lemma sparse_copy_independent:
  fixes m :: "'a::zero memory"
  assumes ld: "load_sparse m p = Inr s" and inv: "sparse_inv s"
      and after: "load_sparse m' p = Inr s" "sparse_allocated m' p" "sparse_separate m' p q"
                 "load_sparse m' q = Inr c" "wf_arrays c"
                 "indexesPositionLength c = indexesPositionLength s" "nbActive c = nbActive s"
                 "indexesPosition c = indexesPosition s"
                 "take (nat (nbActive s)) (activeIndexes c) = take (nat (nbActive s)) (activeIndexes s)"
                 "take (nat (nbActive s)) (values c) = take (nat (nbActive s)) (values s)"
      and small: "nbActive s + 1 \<le> 715827882"
  shows "(\<forall>j. 0 \<le> j \<and> j < dimension s \<longrightarrow> mem_getEntry m' q j = mem_getEntry m p j) \<and>
         (\<forall>k v. 0 \<le> k \<and> k < dimension s \<longrightarrow>
            (\<exists>m''. mem_setEntry m' q k v = Inr m'' \<and>
                   (\<forall>j. mem_getEntry m'' p j = mem_getEntry m p j)))"
proof (intro conjI allI impI)
  note agree = copy_agrees[OF inv after(5,6,7,8,9,10)]
  fix j assume "0 \<le> j \<and> j < dimension s"
  then show "mem_getEntry m' q j = mem_getEntry m p j"
    using agree(2)[of j] by (simp add: mem_getEntry_def ld after(4) dimension_def)
next
  note agree = copy_agrees[OF inv after(5,6,7,8,9,10)]
  fix k v assume k: "0 \<le> k \<and> k < dimension s"
  then have "\<exists>m''. mem_setEntry m' q k v = Inr m''"
    using small
    by (intro mem_setEntry_succeeds[OF after(4) agree(1)]) (simp_all add: after(6,7) dimension_def)
  then obtain m'' where run: "mem_setEntry m' q k v = Inr m''" by blast
  have "load_sparse m'' p = load_sparse m p"
    using mem_setEntry_frame[OF after(3,2) run] after(1) ld by simp
  then have "\<forall>j. mem_getEntry m'' p j = mem_getEntry m p j"
    by (simp only: mem_getEntry_def) simp
  with run show "\<exists>m''. mem_setEntry m' q k v = Inr m'' \<and>
                   (\<forall>j. mem_getEntry m'' p j = mem_getEntry m p j)"
    by blast
qed

lemma mem_dense_put_succeeds:
  assumes ld: "load_dense m q = Inr v" and wf: "capacity v = int (length (data v))"
      and k: "0 \<le> k" "k < capacity v"
  shows "\<exists>m'. mem_dense_put m q k x = Inr m'"
proof -
  obtain ob where "dense_objects m q = Some ob"
    using ld by (auto simp: load_dense_def split: option.splits)
  moreover have "wr (data v) k x = Inr ((data v)[nat k := x])" using k wf by (simp add: wr_def)
  ultimately show ?thesis using k by (simp add: mem_dense_put_def ld)
qed

lemma dense_copy_independent:
  assumes ld: "load_dense m p = Inr v" and wf: "capacity v = int (length (data v))"
      and after: "load_dense m' p = Inr v" "dense_allocated m' p" "dense_separate m' p q"
                 "load_dense m' q = Inr v"
  shows "(\<forall>j. mem_dense_at m' q j = mem_dense_at m p j) \<and>
         (\<forall>k x. 0 \<le> k \<and> k < capacity v \<longrightarrow>
            (\<exists>m''. mem_dense_put m' q k x = Inr m'' \<and>
                   (\<forall>j. mem_dense_at m'' p j = mem_dense_at m p j)))"
proof (intro conjI allI impI)
  fix j show "mem_dense_at m' q j = mem_dense_at m p j"
    by (simp add: mem_dense_at_def ld after(4))
next
  fix k x assume k: "0 \<le> k \<and> k < capacity v"
  then obtain m'' where run: "mem_dense_put m' q k x = Inr m''"
    using mem_dense_put_succeeds[OF after(4) wf, of k x] by blast
  have "load_dense m'' p = load_dense m p"
    using mem_dense_put_frame[OF after(3,2) run] after(1) ld by simp
  then have "\<forall>j. mem_dense_at m'' p j = mem_dense_at m p j"
    by (simp only: mem_dense_at_def) simp
  with run show "\<exists>m''. mem_dense_put m' q k x = Inr m'' \<and>
                   (\<forall>j. mem_dense_at m'' p j = mem_dense_at m p j)"
    by blast
qed

section \<open>Claims\<close>

text \<open>
  C1. On a sparse vector that satisfies the representation invariant and whose active
  count is small enough for \<^verbatim>\<open>allocate(nbActive + 1)\<close> to compute its new capacity
  without overflow (\<open>nbActive + 1 \<le> 715827882\<close>), and for an index
  \<open>k\<close> with \<open>0 \<le> k < dimension\<close>, \<open>setEntry(k, v)\<close> returns normally; afterwards
  \<open>getEntry(k)\<close> returns \<open>v\<close> when \<open>v \<noteq> 0\<close>, and when \<open>v = 0\<close> it returns \<open>0\<close>,
  \<open>indexesPosition[k]\<close> is \<open>-1\<close>, \<open>k\<close> is not among the active indexes and the
  active count did not grow. The invariant holds again afterwards.
\<close>

theorem setEntry_then_getEntry:
  assumes "sparse_inv s" and "0 \<le> k" and "k < dimension s"
      and "nbActive s + 1 \<le> 715827882"
  shows "\<exists>s'. setEntry s k v = Inr s' \<and> sparse_inv s' \<and>
           (v \<noteq> 0 \<longrightarrow> getEntry s' k = Inr v) \<and>
           (v = 0 \<longrightarrow> getEntry s' k = Inr 0 \<and> indexesPosition s' ! nat k = - 1 \<and>
                      k \<notin> set (take (nat (nbActive s')) (activeIndexes s')) \<and>
                      nbActive s' \<le> nbActive s)"
proof -
  define j where "j = nat k"
  have j: "j < nat (indexesPositionLength s)" and k: "k = int j"
    using assms(2,3) by (auto simp: j_def dimension_def)
  show ?thesis
  proof (cases "v = 0")
    case True
    obtain s' where run: "removeEntry s (int j) = Inr s'" and inv': "sparse_inv s'"
      and dim': "indexesPositionLength s' = indexesPositionLength s"
      and nb': "nbActive s' = (if indexesPosition s ! j = - 1 then nbActive s else nbActive s - 1)"
      and ip': "indexesPosition s' ! j = - 1"
      and en: "\<forall>i<nat (indexesPositionLength s).
              entry s' (int i) = (if i = j then 0 else entry s (int i))"
      using removeEntry_correct[OF assms(1) j] by blast
    have "getEntry s' (int j) = Inr (entry s' (int j))"
      using j by (intro getEntry_entry[OF inv']) (simp_all add: dim')
    then have g: "getEntry s' (int j) = Inr 0" using en j by simp
    have "position_inv s'" using inv' by (simp add: sparse_inv_def)
    then have "int j \<notin> set (take (nat (nbActive s')) (activeIndexes s'))"
      by (rule absent_not_active) (simp add: ip')
    moreover have "nbActive s' \<le> nbActive s" by (simp add: nb')
    ultimately show ?thesis using True run inv' g ip' by (simp add: setEntry_def k)
  next
    case False
    obtain s' where run: "setNonZeroEntry s (int j) v = Inr s'" and inv': "sparse_inv s'"
      and dim': "indexesPositionLength s' = indexesPositionLength s"
      and en: "\<forall>i<nat (indexesPositionLength s).
              entry s' (int i) = (if i = j then v else entry s (int i))"
      using setNonZeroEntry_correct[OF assms(1) j assms(4)] by blast
    have "getEntry s' (int j) = Inr (entry s' (int j))"
      using j by (intro getEntry_entry[OF inv']) (simp_all add: dim')
    then have g: "getEntry s' (int j) = Inr v" using en j by simp
    show ?thesis using False run inv' g by (simp add: setEntry_def k)
  qed
qed

theorem setEntry_then_getEntry_witness:
  "sparse_inv \<lparr>indexesPositionLength = 3, activeIndexesLength = 2, nbActive = 1,
               indexesPosition = [- 1, 0, - 1], activeIndexes = [1, 7], values = [5::int, 9]\<rparr>
   \<and> (0::int) \<le> 1
   \<and> 1 < dimension \<lparr>indexesPositionLength = 3, activeIndexesLength = 2, nbActive = 1,
               indexesPosition = [- 1, 0, - 1], activeIndexes = [1, 7], values = [5::int, 9]\<rparr>
   \<and> nbActive \<lparr>indexesPositionLength = 3, activeIndexesLength = 2, nbActive = 1,
               indexesPosition = [- 1, 0, - 1], activeIndexes = [1, 7], values = [5::int, 9]\<rparr> + 1
       \<le> 715827882
   \<and> setEntry \<lparr>indexesPositionLength = 3, activeIndexesLength = 2, nbActive = 1,
               indexesPosition = [- 1, 0, - 1], activeIndexes = [1, 7], values = [5::int, 9]\<rparr> 1 0
       = Inr \<lparr>indexesPositionLength = 3, activeIndexesLength = 2, nbActive = 0,
               indexesPosition = [- 1, - 1, - 1], activeIndexes = [1, 7], values = [5::int, 9]\<rparr>
   \<and> getEntry \<lparr>indexesPositionLength = 3, activeIndexesLength = 2, nbActive = 0,
               indexesPosition = [- 1, - 1, - 1], activeIndexes = [1, 7], values = [5::int, 9]\<rparr> 1
       = Inr 0"
proof -
  let ?s = "\<lparr>indexesPositionLength = 3, activeIndexesLength = 2, nbActive = 1,
               indexesPosition = [- 1, 0, - 1], activeIndexes = [1, 7], values = [5::int, 9]\<rparr>"
  have h1: "sparse_inv ?s" by code_simp
  have h2: "(0::int) \<le> 1" by simp
  have h3: "1 < dimension ?s" by (simp add: dimension_def)
  have h4: "nbActive ?s + 1 \<le> 715827882" by simp
  have e: "setEntry ?s 1 0 = Inr \<lparr>indexesPositionLength = 3, activeIndexesLength = 2, nbActive = 0,
               indexesPosition = [- 1, - 1, - 1], activeIndexes = [1, 7], values = [5::int, 9]\<rparr>"
    by code_simp
  show ?thesis
    using setEntry_then_getEntry[OF h1 h2 h3 h4, of 0] h1 h3 e by simp
qed

text \<open>
  C2. For a sparse vector \<open>s\<close> that satisfies the representation invariant, with at
  most 715827882 active entries (so that no \<^verbatim>\<open>allocate\<close> of the insertions
  overflows), and a file name that can be opened for writing, \<open>persist\<close> writes the file, and \<open>resurrect\<close> of
  that file into a freshly constructed sparse vector of the same declared dimension (with
  any initial active capacity) returns a vector with the same set of active
  (index, value) pairs. The restored vector satisfies the invariant, has the same active
  count, and \<open>getEntry\<close> agrees with the original at every index.
\<close>

theorem persist_resurrect_roundtrip:
  fixes s :: "'a::zero SparseVector"
  assumes "sparse_inv s" and "writable d f"
      and "SparseVector_new (dimension s) len junkI junkV = Inr r0"
      and "nbActive s \<le> 715827882"
  shows "\<exists>d' r. SparseVector_persist s f d = Inr d' \<and> SparseVector_resurrect r0 f d' = Inr r \<and>
           active_pairs r = active_pairs s \<and> sparse_inv r \<and>
           nbActive r = nbActive s \<and> dimension r = dimension s \<and>
           (\<forall>k. 0 \<le> k \<and> k < dimension s \<longrightarrow> getEntry r k = getEntry s k)"
proof -
  have wf: "wf_arrays s" and po: "position_inv s" and ab: "absent_inv s"
    using assms(1) by (auto simp: sparse_inv_def)
  note len = inv_lengths[OF wf]
  note fresh = SparseVector_new_fresh[OF assms(3), unfolded dimension_def]
  define m where "m = nat (nbActive s)"
  define "is" where "is = take m (activeIndexes s)"
  define vs where "vs = take m (values s)"
  have nb: "nbActive s = int m" using wf by (simp add: wf_arrays_def m_def)
  have lis: "length is = m" and lvs: "length vs = length is"
    using len by (simp_all add: is_def vs_def m_def)
  have is_nth: "is ! i = activeIndexes s ! i" and vs_nth: "vs ! i = values s ! i" if "i < m" for i
    using that by (simp_all add: is_def vs_def)
  define d' where "d' = d\<lparr>files := (files d)(f \<mapsto>
                  [IntCell 1, IntCell (indexesPositionLength s), IntCell (nbActive s)]
                  @ map IntCell is @ map ValCell vs)\<rparr>"
  have per: "SparseVector_persist s f d = Inr d'"
    unfolding d'_def is_def vs_def m_def by (rule SparseVector_persist_file[OF wf assms(2)])
  have fl: "files d' f = Some ([IntCell 1, IntCell (indexesPositionLength r0),
                                IntCell (int (length is))]
                               @ map IntCell is @ map ValCell vs @ [])"
    by (simp add: d'_def fresh(3) lis nb)
  have rng: "\<forall>i<length is. 0 \<le> is ! i \<and> is ! i < indexesPositionLength r0"
    using position_invD(1,2)[OF po] is_nth by (simp add: lis fresh(3) m_def)
  have sm: "nbActive r0 + int (length is) \<le> 715827882"
    using assms(4) by (simp add: fresh(2) lis nb)
  obtain r where res: "SparseVector_resurrect r0 f d' = Inr r" and wfr: "wf_arrays r"
    and nbr: "nbActive r = int m" and dimr: "indexesPositionLength r = indexesPositionLength s"
    and cells: "\<And>i. i < m \<Longrightarrow> activeIndexes r ! i = activeIndexes s ! i \<and>
                                 values r ! i = values s ! i"
    and out: "\<And>k. k < nat (indexesPositionLength s) \<Longrightarrow> int k \<notin> set is \<Longrightarrow>
                indexesPosition r ! k = - 1"
    and pos: "\<And>i. i < m \<Longrightarrow> \<exists>i'<m. is ! i' = is ! i \<and> indexesPosition r ! nat (is ! i) = int i'"
    using SparseVector_resurrect_content[OF fresh(1) fl lvs rng sm] is_nth vs_nth
    by (simp add: fresh lis) blast
  have pos': "indexesPosition r ! nat (activeIndexes s ! i) = int i" if i: "i < m" for i
  proof -
    obtain i' where i': "i' < m" "is ! i' = is ! i" "indexesPosition r ! nat (is ! i) = int i'"
      using pos[OF i] by blast
    have "activeIndexes s ! i' = activeIndexes s ! i" using i'(1,2) i by (simp add: is_nth)
    then have "i' = i" using active_distinct[OF po] i'(1) i by (simp add: m_def)
    then show ?thesis using i'(3) i by (simp add: is_nth)
  qed
  have ip_eq: "indexesPosition r ! k = indexesPosition s ! k"
    if k: "k < nat (indexesPositionLength s)" for k
  proof (cases "indexesPosition s ! k = - 1")
    case True
    have "int k \<notin> set (take (nat (nbActive s)) (activeIndexes s))"
      by (rule absent_not_active[OF po]) (simp add: True)
    then show ?thesis using out[OF k] True by (simp add: is_def m_def)
  next
    case False
    note D = absent_invD[OF ab k False]
    have "nat (indexesPosition s ! k) < m" using D(1,2) by (simp add: m_def)
    from pos'[OF this] D(1,3) show ?thesis by simp
  qed
  have por: "position_inv r"
    unfolding position_inv_def
  proof (intro ballI)
    fix i assume "i \<in> {0..<nat (nbActive r)}"
    then have i: "i < m" by (simp add: nbr)
    then have inb: "i < nat (nbActive s)" by (simp add: m_def)
    show "0 \<le> activeIndexes r ! i \<and> activeIndexes r ! i < indexesPositionLength r \<and>
          indexesPosition r ! nat (activeIndexes r ! i) = int i"
      using position_invD(1,2)[OF po inb] cells[OF i] pos'[OF i] by (simp add: dimr)
  qed
  have abr: "absent_inv r"
    unfolding absent_inv_def
  proof (intro ballI)
    fix k assume "k \<in> {0..<nat (indexesPositionLength r)}"
    then have k: "k < nat (indexesPositionLength s)" by (simp add: dimr)
    show "indexesPosition r ! k = - 1 \<or>
         (0 \<le> indexesPosition r ! k \<and> indexesPosition r ! k < nbActive r \<and>
          activeIndexes r ! nat (indexesPosition r ! k) = int k)"
    proof (cases "indexesPosition s ! k = - 1")
      case True
      then show ?thesis using ip_eq[OF k] by simp
    next
      case False
      note D = absent_invD[OF ab k False]
      have "nat (indexesPosition s ! k) < m" using D(1,2) by (simp add: m_def)
      from cells[OF this] D show ?thesis by (simp add: ip_eq[OF k] nbr nb)
    qed
  qed
  have invr: "sparse_inv r" using wfr por abr by (simp add: sparse_inv_def)
  have en: "entry r (int k) = entry s (int k)" if k: "k < nat (indexesPositionLength s)" for k
  proof (cases "indexesPosition s ! k = - 1")
    case True
    then show ?thesis using ip_eq[OF k] by (simp add: entry_def)
  next
    case False
    note D = absent_invD[OF ab k False]
    have "nat (indexesPosition s ! k) < m" using D(1,2) by (simp add: m_def)
    from cells[OF this] False show ?thesis by (simp add: entry_def ip_eq[OF k])
  qed
  have get: "getEntry r k = getEntry s k" if k: "0 \<le> k \<and> k < dimension s" for k
  proof -
    have k0: "0 \<le> k" and k1: "k < indexesPositionLength s" using k by (simp_all add: dimension_def)
    have "getEntry r k = Inr (entry r k)"
      using k1 by (intro getEntry_entry[OF invr k0]) (simp add: dimr)
    moreover have "getEntry s k = Inr (entry s k)" by (rule getEntry_entry[OF assms(1) k0 k1])
    moreover have "entry r k = entry s k" using en[of "nat k"] k0 k1 by simp
    ultimately show ?thesis by simp
  qed
  have "{(activeIndexes r ! i, values r ! i) | i. i < m}
          = {(activeIndexes s ! i, values s ! i) | i. i < m}"
    by (intro Collect_cong ex_cong1) (auto simp: cells)
  then have "active_pairs r = active_pairs s"
    unfolding active_pairs_nth[OF wfr] active_pairs_nth[OF wf] nbr nb by simp
  with per res invr nbr nb dimr get show ?thesis by (auto simp: dimension_def)
qed

theorem persist_resurrect_roundtrip_witness:
  "sparse_inv \<lparr>indexesPositionLength = 4, activeIndexesLength = 3, nbActive = 2,
               indexesPosition = [- 1, 1, - 1, 0], activeIndexes = [3, 1, 8], values = [4::int, 2, 6]\<rparr>
   \<and> nbActive \<lparr>indexesPositionLength = 4, activeIndexesLength = 3, nbActive = 2,
               indexesPosition = [- 1, 1, - 1, 0], activeIndexes = [3, 1, 8], values = [4::int, 2, 6]\<rparr>
       \<le> 715827882
   \<and> SparseVector_new 4 0 (\<lambda>_. 0) (\<lambda>_. 0)
       = Inr \<lparr>indexesPositionLength = 4, activeIndexesLength = 0, nbActive = 0,
              indexesPosition = [- 1, - 1, - 1, - 1], activeIndexes = [], values = ([] :: int list)\<rparr>
   \<and> SparseVector_persist
        \<lparr>indexesPositionLength = 4, activeIndexesLength = 3, nbActive = 2,
         indexesPosition = [- 1, 1, - 1, 0], activeIndexes = [3, 1, 8], values = [4::int, 2, 6]\<rparr>
        ''w'' \<lparr>files = Map.empty, writable = (\<lambda>_. True)\<rparr>
       = Inr \<lparr>files = [''w'' \<mapsto> [IntCell 1, IntCell 4, IntCell 2, IntCell 3, IntCell 1,
                                   ValCell 4, ValCell 2]], writable = (\<lambda>_. True)\<rparr>
   \<and> SparseVector_resurrect
        \<lparr>indexesPositionLength = 4, activeIndexesLength = 0, nbActive = 0,
         indexesPosition = [- 1, - 1, - 1, - 1], activeIndexes = [], values = ([] :: int list)\<rparr>
        ''w'' \<lparr>files = [''w'' \<mapsto> [IntCell 1, IntCell 4, IntCell 2, IntCell 3, IntCell 1,
                                   ValCell 4, ValCell 2]], writable = (\<lambda>_. True)\<rparr>
       = Inr \<lparr>indexesPositionLength = 4, activeIndexesLength = 2, nbActive = 2,
              indexesPosition = [- 1, 1, - 1, 0], activeIndexes = [3, 1], values = [4::int, 2]\<rparr>"
proof -
  let ?s = "\<lparr>indexesPositionLength = 4, activeIndexesLength = 3, nbActive = 2,
               indexesPosition = [- 1, 1, - 1, 0], activeIndexes = [3, 1, 8], values = [4::int, 2, 6]\<rparr>"
  let ?r0 = "\<lparr>indexesPositionLength = 4, activeIndexesLength = 0, nbActive = 0,
              indexesPosition = [- 1, - 1, - 1, - 1], activeIndexes = [], values = ([] :: int list)\<rparr>"
  let ?d = "\<lparr>files = Map.empty, writable = (\<lambda>_. True)\<rparr> :: int disk"
  let ?d' = "\<lparr>files = [''w'' \<mapsto> [IntCell 1, IntCell 4, IntCell 2, IntCell 3, IntCell 1,
                                    ValCell 4, ValCell 2]], writable = (\<lambda>_. True)\<rparr> :: int disk"
  have h1: "sparse_inv ?s" by code_simp
  have h2: "writable ?d ''w''" by simp
  have h3: "SparseVector_new (dimension ?s) 0 (\<lambda>_. 0) (\<lambda>_. 0) = Inr ?r0"
    by code_simp
  have h4: "nbActive ?s \<le> 715827882" by simp
  have wf: "wf_arrays ?s" using h1 by (simp add: sparse_inv_def)
  have p: "SparseVector_persist ?s ''w'' ?d = Inr ?d'"
    by (simp add: SparseVector_persist_file[OF wf h2])
  have e: "SparseVector_resurrect ?r0 ''w'' ?d'
       = Inr \<lparr>indexesPositionLength = 4, activeIndexesLength = 2, nbActive = 2,
              indexesPosition = [- 1, 1, - 1, 0], activeIndexes = [3, 1], values = [4::int, 2]\<rparr>"
    by code_simp
  show ?thesis
    using persist_resurrect_roundtrip[OF h1 h2 h3 h4] h1 h3 p e by (simp add: dimension_def)
qed

text \<open>
  C3, as stated, fails: a sparse receiver of declared dimension 2 that resurrects a
  well-formed sparse file whose stored dimension is 3 does not proceed; the call ends in
  a failed assertion.
\<close>

theorem sparse_resurrect_dimension_counterexample:
  "SparseVector_resurrect
     \<lparr>indexesPositionLength = 2, activeIndexesLength = 1, nbActive = 0,
      indexesPosition = [- 1, - 1], activeIndexes = [0], values = [0::int]\<rparr>
     ''w'' \<lparr>files = [''w'' \<mapsto> [IntCell 1, IntCell 3, IntCell 1, IntCell 0, ValCell 5]],
           writable = (\<lambda>_. True)\<rparr>
   = Inl AssertionFailed"
  by (simp add: SparseVector_resurrect_def read_int_def)

text \<open>
  C3, amended. When the file opens, carries the sparse tag \<open>1\<close>, a stored dimension and
  a stored active count, and the stored dimension differs from the declared dimension of
  the receiver, sparse \<open>resurrect\<close> fails the assertion
  \<^verbatim>\<open>indexesPositionLength == rcapacity\<close>: the mismatch is as fatal as a capacity
  mismatch is for a dense vector, and nothing is inserted.
\<close>

theorem sparse_resurrect_dimension_enforced:
  fixes s :: "'a::zero SparseVector"
  assumes "files d f = Some (IntCell 1 # IntCell stored # IntCell count # rest)"
      and "stored \<noteq> dimension s"
  shows "SparseVector_resurrect s f d = Inl AssertionFailed"
  using assms by (simp add: SparseVector_resurrect_def read_int_def dimension_def)

theorem sparse_resurrect_dimension_enforced_witness:
  "files \<lparr>files = [''tiles.0'' \<mapsto> [IntCell 1, IntCell 3, IntCell 0]], writable = (\<lambda>_. False)\<rparr> ''tiles.0''
     = Some (IntCell 1 # IntCell 3 # IntCell 0 # ([] :: int cell list))
   \<and> 3 \<noteq> dimension \<lparr>indexesPositionLength = 5, activeIndexesLength = 0, nbActive = 0,
                     indexesPosition = [- 1, - 1, - 1, - 1, - 1], activeIndexes = [],
                     values = ([] :: int list)\<rparr>
   \<and> SparseVector_resurrect
        \<lparr>indexesPositionLength = 5, activeIndexesLength = 0, nbActive = 0,
         indexesPosition = [- 1, - 1, - 1, - 1, - 1], activeIndexes = [], values = ([] :: int list)\<rparr>
        ''tiles.0''
        \<lparr>files = [''tiles.0'' \<mapsto> [IntCell 1, IntCell 3, IntCell 0]], writable = (\<lambda>_. False)\<rparr>
     = Inl AssertionFailed"
proof -
  let ?d = "\<lparr>files = [''tiles.0'' \<mapsto> [IntCell 1, IntCell 3, IntCell 0 :: int cell]],
             writable = (\<lambda>_. False)\<rparr>"
  let ?s = "\<lparr>indexesPositionLength = 5, activeIndexesLength = 0, nbActive = 0,
         indexesPosition = [- 1, - 1, - 1, - 1, - 1], activeIndexes = [], values = ([] :: int list)\<rparr>"
  have h1: "files ?d ''tiles.0'' = Some (IntCell 1 # IntCell 3 # IntCell 0 # [])" by simp
  have h2: "3 \<noteq> dimension ?s" by (simp add: dimension_def)
  show ?thesis
    using sparse_resurrect_dimension_enforced[OF h1 h2] h1 h2 by simp
qed

text \<open>
  C4 at a failing input, with \<open>T = long\<close>. A vector of dimension 1 is constructed and
  its entry 0 is set to 1; no active position holds zero. \<open>addToSelf(-1.0, that)\<close> with
  a vector \<open>that\<close> holding the same single entry, and likewise
  \<open>ebeAddConstantToSelf(-1.0)\<close>, form the sum \<open>0\<close> in \<^verbatim>\<open>double\<close> and hand it to
  \<open>setNonZeroEntry\<close>, which overwrites the value without the zero test of \<open>setEntry\<close>:
  afterwards \<open>nbActive\<close> is still 1 and the active position 0 stores the value 0.
\<close>

theorem addToSelf_stores_explicit_zero:
  "andThen (SparseVector_new 1 1 (\<lambda>_. 0) (\<lambda>_. 0)) (\<lambda>a. setEntry a 0 1)
     = Inr \<lparr>indexesPositionLength = 1, activeIndexesLength = 1, nbActive = 1,
            indexesPosition = [0], activeIndexes = [0], values = [1::int]\<rparr>
   \<and> addToSelf long_with_double
        \<lparr>indexesPositionLength = 1, activeIndexesLength = 1, nbActive = 1,
         indexesPosition = [0], activeIndexes = [0], values = [1::int]\<rparr>
        (- 1)
        \<lparr>indexesPositionLength = 1, activeIndexesLength = 1, nbActive = 1,
         indexesPosition = [0], activeIndexes = [0], values = [1::int]\<rparr>
     = Inr \<lparr>indexesPositionLength = 1, activeIndexesLength = 1, nbActive = 1,
            indexesPosition = [0], activeIndexes = [0], values = [0::int]\<rparr>
   \<and> ebeAddConstantToSelf long_with_double
        \<lparr>indexesPositionLength = 1, activeIndexesLength = 1, nbActive = 1,
         indexesPosition = [0], activeIndexes = [0], values = [1::int]\<rparr>
        (- 1)
     = Inr \<lparr>indexesPositionLength = 1, activeIndexesLength = 1, nbActive = 1,
            indexesPosition = [0], activeIndexes = [0], values = [0::int]\<rparr>"
  by code_simp

text \<open>
  C5. On a sparse vector whose arrays are well-formed and which satisfies the
  index-position invariant, \<open>removeEntry(k)\<close> for an active index \<open>k\<close> returns
  normally; afterwards the index-position invariant holds again, \<open>nbActive\<close> is one less,
  \<open>indexesPosition[k]\<close> is \<open>-1\<close>, and the active (index, value) pairs are exactly the
  former ones whose index is not \<open>k\<close>.
\<close>

theorem removeEntry_swap_remove:
  assumes wf: "wf_arrays s" and po: "position_inv s"
      and act: "k \<in> set (take (nat (nbActive s)) (activeIndexes s))"
  shows "\<exists>s'. removeEntry s k = Inr s' \<and> wf_arrays s' \<and> position_inv s' \<and>
           nbActive s' = nbActive s - 1 \<and> indexesPosition s' ! nat k = - 1 \<and>
           active_pairs s' = {iv \<in> active_pairs s. fst iv \<noteq> k}"
proof -
  define n where "n = nat (nbActive s) - 1"
  note len = inv_lengths[OF wf]
  obtain p where pl: "p < length (take (nat (nbActive s)) (activeIndexes s))"
    and pe: "take (nat (nbActive s)) (activeIndexes s) ! p = k"
    using act by (auto simp: in_set_conv_nth)
  have p: "p < nat (nbActive s)" using pl by simp
  then have ap: "activeIndexes s ! p = k" using pe by simp
  note P = position_invD[OF po p, unfolded ap]
  have kl: "nat k < length (indexesPosition s)" using P(1,2) len(1) by simp
  have r: "rd (indexesPosition s) k = Inr (int p)"
    using P kl by (simp add: rd_def)
  obtain s' where run: "removeEntry_at s (int p) k = Inr s'"
    and wf': "wf_arrays s'" and po': "position_inv s'"
    and nb': "nbActive s' = nbActive s - 1"
    and ip': "indexesPosition s' = (indexesPosition s)[nat (activeIndexes s ! n) := int p,
                                                     nat k := - 1]"
    and ai_nth: "\<And>i. i < n \<Longrightarrow>
           activeIndexes s' ! i = (if i = p then activeIndexes s ! n else activeIndexes s ! i)"
    and vs_nth: "\<And>i. i < n \<Longrightarrow> values s' ! i = (if i = p then values s ! n else values s ! i)"
    using removeEntry_at_position[OF wf po p, of k] unfolding n_def ap by blast
  have run': "removeEntry s k = Inr s'"
    by (simp add: removeEntry_def r run)
  have gone: "indexesPosition s' ! nat k = - 1"
    using kl by (simp add: ip')
  have nn: "nat (nbActive s') = n" "n < nat (nbActive s)" "p \<le> n"
    using p by (simp_all add: nb' n_def)
  have only_p: "i = p" if "i < nat (nbActive s)" "activeIndexes s ! i = k" for i
    using active_distinct[OF po that(1) p] that(2) ap by simp
  have "active_pairs s' = {iv \<in> active_pairs s. fst iv \<noteq> k}"
  proof (intro set_eqI iffI)
    fix iv assume "iv \<in> active_pairs s'"
    then obtain i where i: "i < n" and iv: "iv = (activeIndexes s' ! i, values s' ! i)"
      unfolding active_pairs_nth[OF wf'] nn(1) by blast
    show "iv \<in> {iv \<in> active_pairs s. fst iv \<noteq> k}"
    proof (cases "i = p")
      case True
      then have "n \<noteq> p" using i by simp
      then have "activeIndexes s ! n \<noteq> k" using only_p[OF nn(2)] by blast
      moreover have "iv = (activeIndexes s ! n, values s ! n)"
        using iv ai_nth[OF i] vs_nth[OF i] True by simp
      ultimately show ?thesis using nn(2) unfolding active_pairs_nth[OF wf] by auto
    next
      case False
      have inb: "i < nat (nbActive s)" using i nn(2) by simp
      have "activeIndexes s ! i \<noteq> k" using only_p[OF inb] False by blast
      moreover have "iv = (activeIndexes s ! i, values s ! i)"
        using iv ai_nth[OF i] vs_nth[OF i] False by simp
      ultimately show ?thesis using inb unfolding active_pairs_nth[OF wf] by auto
    qed
  next
    fix iv assume "iv \<in> {iv \<in> active_pairs s. fst iv \<noteq> k}"
    then obtain i where i: "i < nat (nbActive s)"
      and iv: "iv = (activeIndexes s ! i, values s ! i)" and ne: "activeIndexes s ! i \<noteq> k"
      unfolding active_pairs_nth[OF wf] by auto
    have ip: "i \<noteq> p" using ne ap by auto
    show "iv \<in> active_pairs s'"
    proof (cases "i = n")
      case True
      then have pn: "p < n" using ip nn(3) by simp
      have "iv = (activeIndexes s' ! p, values s' ! p)"
        using iv ai_nth[OF pn] vs_nth[OF pn] True by simp
      then show ?thesis using pn unfolding active_pairs_nth[OF wf'] nn(1) by blast
    next
      case False
      then have i': "i < n" using i by (simp add: n_def)
      have "iv = (activeIndexes s' ! i, values s' ! i)"
        using iv ai_nth[OF i'] vs_nth[OF i'] ip by simp
      then show ?thesis using i' unfolding active_pairs_nth[OF wf'] nn(1) by blast
    qed
  qed
  with run' wf' po' nb' gone show ?thesis by blast
qed

theorem removeEntry_swap_remove_witness:
  "wf_arrays \<lparr>indexesPositionLength = 3, activeIndexesLength = 2, nbActive = 2,
              indexesPosition = [- 1, 0, 1], activeIndexes = [1, 2], values = [5::int, 6]\<rparr>
   \<and> position_inv \<lparr>indexesPositionLength = 3, activeIndexesLength = 2, nbActive = 2,
              indexesPosition = [- 1, 0, 1], activeIndexes = [1, 2], values = [5::int, 6]\<rparr>
   \<and> removeEntry \<lparr>indexesPositionLength = 3, activeIndexesLength = 2, nbActive = 2,
              indexesPosition = [- 1, 0, 1], activeIndexes = [1, 2], values = [5::int, 6]\<rparr> 1
       = Inr \<lparr>indexesPositionLength = 3, activeIndexesLength = 2, nbActive = 1,
              indexesPosition = [- 1, - 1, 0], activeIndexes = [2, 1], values = [6::int, 5]\<rparr>
   \<and> position_inv \<lparr>indexesPositionLength = 3, activeIndexesLength = 2, nbActive = 1,
              indexesPosition = [- 1, - 1, 0], activeIndexes = [2, 1], values = [6::int, 5]\<rparr>"
proof -
  let ?s = "\<lparr>indexesPositionLength = 3, activeIndexesLength = 2, nbActive = 2,
              indexesPosition = [- 1, 0, 1], activeIndexes = [1, 2], values = [5::int, 6]\<rparr>"
  have h1: "wf_arrays ?s" by (simp add: wf_arrays_def)
  have h2: "position_inv ?s" by code_simp
  have h3: "1 \<in> set (take (nat (nbActive ?s)) (activeIndexes ?s))" by simp
  have e: "removeEntry ?s 1 = Inr \<lparr>indexesPositionLength = 3, activeIndexesLength = 2, nbActive = 1,
              indexesPosition = [- 1, - 1, 0], activeIndexes = [2, 1], values = [6::int, 5]\<rparr>"
    by code_simp
  show ?thesis
    using removeEntry_swap_remove[OF h1 h2 h3] h1 h2 e by simp
qed

text \<open>
  C6. For two sparse vectors \<open>a\<close> and \<open>b\<close> that satisfy the representation invariant and
  have the same declared dimension, \<open>a.ebeMultiplyToSelf(b)\<close> returns normally with the
  invariant intact; afterwards the value of \<open>a\<close> at every index \<open>k\<close> is the product of the
  former value of \<open>a\<close> at \<open>k\<close> and the value of \<open>b\<close> at \<open>k\<close>, an index is active exactly
  when that product is not zero, and no active position holds zero. Every entry is
  therefore visited, also one that a swap-remove moved into the position being visited.
\<close>

theorem ebeMultiplyToSelf_correct:
  fixes a b :: "'a::mult_zero SparseVector"
  assumes "sparse_inv a" and "sparse_inv b" and "dimension a = dimension b"
  shows "\<exists>a'. ebeMultiplyToSelf a b = Inr a' \<and> sparse_inv a' \<and> dimension a' = dimension a \<and>
           no_explicit_zero a' \<and>
           (\<forall>k. 0 \<le> k \<and> k < dimension a \<longrightarrow>
              (\<exists>x y. getEntry a k = Inr x \<and> getEntry b k = Inr y \<and>
                     getEntry a' k = Inr (x * y) \<and>
                     (indexesPosition a' ! nat k = - 1 \<longleftrightarrow> x * y = 0)))"
proof -
  have dim: "indexesPositionLength a = indexesPositionLength b"
    using assms(3) by (simp add: dimension_def)
  have "0 \<le> nat (nbActive a)" "\<forall>i<0::nat. values a ! i \<noteq> 0" by simp_all
  from ebeMultiplyToSelf_loop_correct[OF assms(2,1) dim this]
  obtain a' where run: "ebeMultiplyToSelf_loop a b (int 0) = Inr a'"
    and inv': "sparse_inv a'" and dim': "indexesPositionLength a' = indexesPositionLength a"
    and nez: "no_explicit_zero a'"
    and en: "\<And>k. k < nat (indexesPositionLength a) \<Longrightarrow>
                 entry a' (int k) =
                   (if indexesPosition a ! k = - 1 then 0
                    else if indexesPosition a ! k < int 0 then entry a (int k)
                    else entry a (int k) * entry b (int k))"
    by blast
  have ab: "absent_inv a" using assms(1) by (simp add: sparse_inv_def)
  have prod: "entry a' (int j) = entry a (int j) * entry b (int j)"
    if j: "j < nat (indexesPositionLength a)" for j
  proof (cases "indexesPosition a ! j = - 1")
    case True
    then have "entry a (int j) = 0" by (simp add: entry_def)
    then show ?thesis using en[OF j] True by simp
  next
    case False
    then have "\<not> indexesPosition a ! j < 0" using absent_invD(1)[OF ab j False] by simp
    then show ?thesis using en[OF j] False by simp
  qed
  have "\<exists>x y. getEntry a k = Inr x \<and> getEntry b k = Inr y \<and> getEntry a' k = Inr (x * y) \<and>
               (indexesPosition a' ! nat k = - 1 \<longleftrightarrow> x * y = 0)"
    if k: "0 \<le> k \<and> k < dimension a" for k
  proof -
    have k0: "0 \<le> k" and k1: "k < indexesPositionLength a" using k by (simp_all add: dimension_def)
    define j where "j = nat k"
    have j: "j < nat (indexesPositionLength a)" and kj: "k = int j"
      using k0 k1 by (simp_all add: j_def)
    have "getEntry a k = Inr (entry a k)" by (rule getEntry_entry[OF assms(1) k0 k1])
    moreover have "getEntry b k = Inr (entry b k)"
      using k1 by (intro getEntry_entry[OF assms(2) k0]) (simp add: dim)
    moreover have "getEntry a' k = Inr (entry a' k)"
      using k1 by (intro getEntry_entry[OF inv' k0]) (simp add: dim')
    moreover have "entry a' k = entry a k * entry b k" using prod[OF j] by (simp add: kj)
    moreover have "indexesPosition a' ! nat k = - 1 \<longleftrightarrow> entry a' k = 0"
      using active_iff_nonzero[OF inv' nez, of j] j by (simp add: dim' kj)
    ultimately show ?thesis by simp
  qed
  then show ?thesis
    using run inv' dim' nez assms(3) by (simp add: ebeMultiplyToSelf_def dimension_def)
qed

theorem ebeMultiplyToSelf_correct_witness:
  "sparse_inv \<lparr>indexesPositionLength = 3, activeIndexesLength = 3, nbActive = 3,
              indexesPosition = [0, 1, 2], activeIndexes = [0, 1, 2], values = [5::int, 2, 7]\<rparr>
   \<and> sparse_inv \<lparr>indexesPositionLength = 3, activeIndexesLength = 2, nbActive = 1,
              indexesPosition = [- 1, - 1, 0], activeIndexes = [2, 9], values = [3::int, 9]\<rparr>
   \<and> ebeMultiplyToSelf
        \<lparr>indexesPositionLength = 3, activeIndexesLength = 3, nbActive = 3,
              indexesPosition = [0, 1, 2], activeIndexes = [0, 1, 2], values = [5::int, 2, 7]\<rparr>
        \<lparr>indexesPositionLength = 3, activeIndexesLength = 2, nbActive = 1,
              indexesPosition = [- 1, - 1, 0], activeIndexes = [2, 9], values = [3::int, 9]\<rparr>
       = Inr \<lparr>indexesPositionLength = 3, activeIndexesLength = 3, nbActive = 1,
              indexesPosition = [- 1, - 1, 0], activeIndexes = [2, 1, 0], values = [21::int, 2, 5]\<rparr>"
proof -
  let ?a = "\<lparr>indexesPositionLength = 3, activeIndexesLength = 3, nbActive = 3,
              indexesPosition = [0, 1, 2], activeIndexes = [0, 1, 2], values = [5::int, 2, 7]\<rparr>"
  let ?b = "\<lparr>indexesPositionLength = 3, activeIndexesLength = 2, nbActive = 1,
              indexesPosition = [- 1, - 1, 0], activeIndexes = [2, 9], values = [3::int, 9]\<rparr>"
  have h1: "sparse_inv ?a" by code_simp
  have h2: "sparse_inv ?b" by code_simp
  have h3: "dimension ?a = dimension ?b" by (simp add: dimension_def)
  have e: "ebeMultiplyToSelf ?a ?b
       = Inr \<lparr>indexesPositionLength = 3, activeIndexesLength = 3, nbActive = 1,
              indexesPosition = [- 1, - 1, 0], activeIndexes = [2, 1, 0], values = [21::int, 2, 5]\<rparr>"
    by code_simp
  show ?thesis
    using ebeMultiplyToSelf_correct[OF h1 h2 h3] h1 h2 e by simp
qed




text \<open>
  C8. When the named file cannot be opened, \<open>resurrect\<close> of a sparse vector and
  \<open>resurrect\<close> of a dense vector both end in \<^verbatim>\<open>exit(-1)\<close>. For a dense vector,
  \<open>resurrect\<close> fails its first assertion when the leading tag read from the file is not
  the dense tag \<open>0\<close>, and its second assertion when the tag is \<open>0\<close> and the stored
  capacity differs from the capacity of the receiver.
\<close>

theorem resurrect_failures:
  fixes s :: "'a::zero SparseVector" and v :: "'a DenseVector"
  shows "(files d f = None \<longrightarrow>
            SparseVector_resurrect s f d = Inl ProcessExit \<and>
            DenseVector_resurrect v f d = Inl ProcessExit) \<and>
         (files d f = Some (IntCell tag # rest) \<and> tag \<noteq> 0 \<longrightarrow>
            DenseVector_resurrect v f d = Inl AssertionFailed) \<and>
         (files d f = Some (IntCell 0 # IntCell stored # rest') \<and> stored \<noteq> capacity v \<longrightarrow>
            DenseVector_resurrect v f d = Inl AssertionFailed)"
  by (simp add: SparseVector_resurrect_def DenseVector_resurrect_def read_int_def)

theorem resurrect_failures_witness:
  "files \<lparr>files = (\<lambda>_. None), writable = (\<lambda>_. True)\<rparr> ''w'' = (None :: int cell list option)
   \<and> SparseVector_resurrect
        \<lparr>indexesPositionLength = 1, activeIndexesLength = 1, nbActive = 0,
         indexesPosition = [- 1], activeIndexes = [0], values = [0::int]\<rparr>
        ''w'' \<lparr>files = (\<lambda>_. None), writable = (\<lambda>_. True)\<rparr> = Inl ProcessExit
   \<and> DenseVector_resurrect \<lparr>capacity = 2, data = [0::int, 0]\<rparr>
        ''w'' \<lparr>files = (\<lambda>_. None), writable = (\<lambda>_. True)\<rparr> = Inl ProcessExit
   \<and> DenseVector_resurrect \<lparr>capacity = 2, data = [0::int, 0]\<rparr>
        ''w'' \<lparr>files = [''w'' \<mapsto> [IntCell 1, IntCell 2, IntCell 0]], writable = (\<lambda>_. True)\<rparr>
       = Inl AssertionFailed
   \<and> DenseVector_resurrect \<lparr>capacity = 2, data = [0::int, 0]\<rparr>
        ''w'' \<lparr>files = [''w'' \<mapsto> [IntCell 0, IntCell 3, ValCell 7, ValCell 8, ValCell 9]],
              writable = (\<lambda>_. True)\<rparr>
       = Inl AssertionFailed"
  using resurrect_failures[where d = "\<lparr>files = (\<lambda>_. None), writable = (\<lambda>_. True)\<rparr>"
          and f = "''w''"
          and s = "\<lparr>indexesPositionLength = 1, activeIndexesLength = 1, nbActive = 0,
            indexesPosition = [- 1], activeIndexes = [0], values = [0::int]\<rparr>"
          and v = "\<lparr>capacity = 2, data = [0::int, 0]\<rparr>"]
        resurrect_failures[where d = "\<lparr>files = [''w'' \<mapsto> [IntCell 1, IntCell 2, IntCell 0]],
                                writable = (\<lambda>_. True)\<rparr>"
          and f = "''w''" and tag = 1 and rest = "[IntCell 2, IntCell 0]"
          and v = "\<lparr>capacity = 2, data = [0::int, 0]\<rparr>"]
        resurrect_failures[where d = "\<lparr>files = [''w'' \<mapsto> [IntCell 0, IntCell 3, ValCell 7, ValCell 8, ValCell 9]],
                                writable = (\<lambda>_. True)\<rparr>"
          and f = "''w''" and stored = 3 and rest' = "[ValCell 7, ValCell 8, ValCell 9]"
          and v = "\<lparr>capacity = 2, data = [0::int, 0]\<rparr>"]
  by simp

text \<open>
  C9, for \<^verbatim>\<open>SparseVector\<close> and \<^verbatim>\<open>DenseVector\<close>. Copy construction and copy
  assignment produce an independent deep copy: the copy returns the values of the
  original, and after any \<open>setEntry\<close> (for a dense vector, any element assignment) at a
  valid index through the copy, every value read through the original is what it was.
  Here the original is an allocated object that satisfies its invariant and, for
  assignment, shares no array with the receiver; for a sparse vector its active count is
  small enough for \<^verbatim>\<open>allocate(nbActive + 1)\<close> not to overflow. The copy constructor
  and \<^verbatim>\<open>operator=\<close> of the \<^verbatim>\<open>SparseVectors\<close> collection have no embedding: the
  constructor initialises an \<^verbatim>\<open>iterator\<close> from \<^verbatim>\<open>that.begin()\<close> of a
  \<^verbatim>\<open>const\<close> object, which is a \<^verbatim>\<open>const_iterator\<close>, and \<^verbatim>\<open>operator=\<close> compares
  the pointer \<^verbatim>\<open>this\<close> with the reference \<^verbatim>\<open>that\<close>, so a program that copies a
  collection is ill-formed.
\<close>

theorem vector_copies_are_deep:
  fixes m :: "'a::zero memory"
  shows
   "(load_sparse m p = Inr s \<and> sparse_inv s \<and> sparse_allocated m p \<and>
     nbActive s + 1 \<le> 715827882 \<longrightarrow>
       (\<exists>q m'. SparseVector_copy m p junkI junkV = Inr (q, m') \<and>
          (\<forall>j. 0 \<le> j \<and> j < dimension s \<longrightarrow> mem_getEntry m' q j = mem_getEntry m p j) \<and>
          (\<forall>k v. 0 \<le> k \<and> k < dimension s \<longrightarrow>
             (\<exists>m''. mem_setEntry m' q k v = Inr m'' \<and>
                    (\<forall>j. mem_getEntry m'' p j = mem_getEntry m p j))))) \<and>
    (load_sparse m p = Inr s \<and> sparse_inv s \<and> sparse_allocated m p \<and>
     nbActive s + 1 \<le> 715827882 \<and> sparse_separate m this p \<longrightarrow>
       (\<exists>m'. SparseVector_assign m this p junkI junkV = Inr m' \<and>
          (\<forall>j. 0 \<le> j \<and> j < dimension s \<longrightarrow> mem_getEntry m' this j = mem_getEntry m p j) \<and>
          (\<forall>k v. 0 \<le> k \<and> k < dimension s \<longrightarrow>
             (\<exists>m''. mem_setEntry m' this k v = Inr m'' \<and>
                    (\<forall>j. mem_getEntry m'' p j = mem_getEntry m p j))))) \<and>
    (load_dense m dp = Inr dv \<and> capacity dv = int (length (data dv)) \<and> dense_allocated m dp \<longrightarrow>
       (\<exists>q m'. DenseVector_copy m dp junkV = Inr (q, m') \<and>
          (\<forall>j. mem_dense_at m' q j = mem_dense_at m dp j) \<and>
          (\<forall>k x. 0 \<le> k \<and> k < capacity dv \<longrightarrow>
             (\<exists>m''. mem_dense_put m' q k x = Inr m'' \<and>
                    (\<forall>j. mem_dense_at m'' dp j = mem_dense_at m dp j))))) \<and>
    (load_dense m dp = Inr dv \<and> capacity dv = int (length (data dv)) \<and> dense_allocated m dp \<and>
     dense_separate m dthis dp \<longrightarrow>
       (\<exists>m'. DenseVector_assign m dthis dp junkV = Inr m' \<and>
          (\<forall>j. mem_dense_at m' dthis j = mem_dense_at m dp j) \<and>
          (\<forall>k x. 0 \<le> k \<and> k < capacity dv \<longrightarrow>
             (\<exists>m''. mem_dense_put m' dthis k x = Inr m'' \<and>
                    (\<forall>j. mem_dense_at m'' dp j = mem_dense_at m dp j)))))"
proof (intro conjI impI)
  assume h: "load_sparse m p = Inr s \<and> sparse_inv s \<and> sparse_allocated m p \<and>
             nbActive s + 1 \<le> 715827882"
  then have ld: "load_sparse m p = Inr s" and inv: "sparse_inv s" and al: "sparse_allocated m p"
    and small: "nbActive s + 1 \<le> 715827882"
    by simp_all
  have wf: "wf_arrays s" using inv by (simp add: sparse_inv_def)
  from SparseVector_copy_deep[OF ld wf al, of junkI junkV]
  obtain q m' c where run: "SparseVector_copy m p junkI junkV = Inr (q, m')"
    and after: "load_sparse m' p = Inr s" "sparse_allocated m' p" "sparse_separate m' p q"
                 "load_sparse m' q = Inr c" "wf_arrays c"
                 "indexesPositionLength c = indexesPositionLength s" "nbActive c = nbActive s"
                 "indexesPosition c = indexesPosition s"
                 "take (nat (nbActive s)) (activeIndexes c) = take (nat (nbActive s)) (activeIndexes s)"
                 "take (nat (nbActive s)) (values c) = take (nat (nbActive s)) (values s)"
    by blast
  from sparse_copy_independent[OF ld inv after small] run
  show "\<exists>q m'. SparseVector_copy m p junkI junkV = Inr (q, m') \<and>
          (\<forall>j. 0 \<le> j \<and> j < dimension s \<longrightarrow> mem_getEntry m' q j = mem_getEntry m p j) \<and>
          (\<forall>k v. 0 \<le> k \<and> k < dimension s \<longrightarrow>
             (\<exists>m''. mem_setEntry m' q k v = Inr m'' \<and>
                    (\<forall>j. mem_getEntry m'' p j = mem_getEntry m p j)))"
    by blast
next
  assume h: "load_sparse m p = Inr s \<and> sparse_inv s \<and> sparse_allocated m p \<and>
             nbActive s + 1 \<le> 715827882 \<and> sparse_separate m this p"
  then have ld: "load_sparse m p = Inr s" and inv: "sparse_inv s" and al: "sparse_allocated m p"
    and small: "nbActive s + 1 \<le> 715827882" and sep: "sparse_separate m this p"
    by simp_all
  have wf: "wf_arrays s" using inv by (simp add: sparse_inv_def)
  from SparseVector_assign_deep[OF sep ld wf al, of junkI junkV]
  obtain m' c where run: "SparseVector_assign m this p junkI junkV = Inr m'"
    and after: "load_sparse m' p = Inr s" "sparse_allocated m' p" "sparse_separate m' p this"
                 "load_sparse m' this = Inr c" "wf_arrays c"
                 "indexesPositionLength c = indexesPositionLength s" "nbActive c = nbActive s"
                 "indexesPosition c = indexesPosition s"
                 "take (nat (nbActive s)) (activeIndexes c) = take (nat (nbActive s)) (activeIndexes s)"
                 "take (nat (nbActive s)) (values c) = take (nat (nbActive s)) (values s)"
    by blast
  from sparse_copy_independent[OF ld inv after small] run
  show "\<exists>m'. SparseVector_assign m this p junkI junkV = Inr m' \<and>
          (\<forall>j. 0 \<le> j \<and> j < dimension s \<longrightarrow> mem_getEntry m' this j = mem_getEntry m p j) \<and>
          (\<forall>k v. 0 \<le> k \<and> k < dimension s \<longrightarrow>
             (\<exists>m''. mem_setEntry m' this k v = Inr m'' \<and>
                    (\<forall>j. mem_getEntry m'' p j = mem_getEntry m p j)))"
    by blast
next
  assume h: "load_dense m dp = Inr dv \<and> capacity dv = int (length (data dv)) \<and>
             dense_allocated m dp"
  then have ld: "load_dense m dp = Inr dv" and wf: "capacity dv = int (length (data dv))"
    and al: "dense_allocated m dp"
    by simp_all
  from DenseVector_copy_deep[OF ld wf al, of junkV]
  obtain q m' where run: "DenseVector_copy m dp junkV = Inr (q, m')"
    and after: "load_dense m' dp = Inr dv" "dense_allocated m' dp" "dense_separate m' dp q"
               "load_dense m' q = Inr dv"
    by blast
  from dense_copy_independent[OF ld wf after] run
  show "\<exists>q m'. DenseVector_copy m dp junkV = Inr (q, m') \<and>
          (\<forall>j. mem_dense_at m' q j = mem_dense_at m dp j) \<and>
          (\<forall>k x. 0 \<le> k \<and> k < capacity dv \<longrightarrow>
             (\<exists>m''. mem_dense_put m' q k x = Inr m'' \<and>
                    (\<forall>j. mem_dense_at m'' dp j = mem_dense_at m dp j)))"
    by blast
next
  assume h: "load_dense m dp = Inr dv \<and> capacity dv = int (length (data dv)) \<and>
             dense_allocated m dp \<and> dense_separate m dthis dp"
  then have ld: "load_dense m dp = Inr dv" and wf: "capacity dv = int (length (data dv))"
    and al: "dense_allocated m dp" and sep: "dense_separate m dthis dp"
    by simp_all
  from DenseVector_assign_deep[OF sep ld wf al, of junkV]
  obtain m' where run: "DenseVector_assign m dthis dp junkV = Inr m'"
    and after: "load_dense m' dp = Inr dv" "dense_allocated m' dp" "dense_separate m' dp dthis"
               "load_dense m' dthis = Inr dv"
    by blast
  from dense_copy_independent[OF ld wf after] run
  show "\<exists>m'. DenseVector_assign m dthis dp junkV = Inr m' \<and>
          (\<forall>j. mem_dense_at m' dthis j = mem_dense_at m dp j) \<and>
          (\<forall>k x. 0 \<le> k \<and> k < capacity dv \<longrightarrow>
             (\<exists>m''. mem_dense_put m' dthis k x = Inr m'' \<and>
                    (\<forall>j. mem_dense_at m'' dp j = mem_dense_at m dp j)))"
    by blast
qed

theorem vector_copies_are_deep_witness:
  "(let M = \<lparr>int_arrays = [0 \<mapsto> [- 1, 0], 1 \<mapsto> [1], 4 \<mapsto> [- 1], 5 \<mapsto> [0]],
             val_arrays = [2 \<mapsto> [5::int], 6 \<mapsto> [0], 8 \<mapsto> [1, 2], 9 \<mapsto> [0]],
             sparse_objects =
               [3 \<mapsto> \<lparr>o_indexesPositionLength = 2, o_activeIndexesLength = 1, o_nbActive = 1,
                       p_indexesPosition = 0, p_activeIndexes = 1, p_values = 2\<rparr>,
                7 \<mapsto> \<lparr>o_indexesPositionLength = 1, o_activeIndexesLength = 1, o_nbActive = 0,
                       p_indexesPosition = 4, p_activeIndexes = 5, p_values = 6\<rparr>],
             dense_objects = [10 \<mapsto> \<lparr>o_capacity = 2, p_data = 8\<rparr>,
                              11 \<mapsto> \<lparr>o_capacity = 1, p_data = 9\<rparr>],
             lim = 12\<rparr>;
        S = \<lparr>indexesPositionLength = 2, activeIndexesLength = 1, nbActive = 1,
             indexesPosition = [- 1, 0], activeIndexes = [1], values = [5::int]\<rparr>;
        D = \<lparr>capacity = 2, data = [1::int, 2]\<rparr>
    in load_sparse M 3 = Inr S \<and> sparse_inv S \<and> sparse_allocated M 3 \<and>
       nbActive S + 1 \<le> 715827882 \<and> sparse_separate M 7 3 \<and>
       load_dense M 10 = Inr D \<and> capacity D = int (length (data D)) \<and> dense_allocated M 10 \<and>
       dense_separate M 11 10 \<and>
       (\<exists>q m'. SparseVector_copy M 3 (\<lambda>_. 0) (\<lambda>_. 0) = Inr (q, m') \<and>
          mem_getEntry m' q 1 = Inr 5 \<and>
          (\<exists>m''. mem_setEntry m' q 1 0 = Inr m'' \<and> mem_getEntry m'' 3 1 = Inr 5)) \<and>
       (\<exists>m'. SparseVector_assign M 7 3 (\<lambda>_. 0) (\<lambda>_. 0) = Inr m' \<and>
          (\<exists>m''. mem_setEntry m' 7 1 9 = Inr m'' \<and> mem_getEntry m'' 3 1 = Inr 5)) \<and>
       (\<exists>q m'. DenseVector_copy M 10 (\<lambda>_. 0) = Inr (q, m') \<and>
          (\<exists>m''. mem_dense_put m' q 0 7 = Inr m'' \<and> mem_dense_at m'' 10 0 = Inr 1)) \<and>
       (\<exists>m'. DenseVector_assign M 11 10 (\<lambda>_. 0) = Inr m' \<and>
          (\<exists>m''. mem_dense_put m' 11 0 7 = Inr m'' \<and> mem_dense_at m'' 10 0 = Inr 1)))"
proof -
  let ?M = "\<lparr>int_arrays = [0 \<mapsto> [- 1, 0], 1 \<mapsto> [1], 4 \<mapsto> [- 1], 5 \<mapsto> [0]],
             val_arrays = [2 \<mapsto> [5::int], 6 \<mapsto> [0], 8 \<mapsto> [1, 2], 9 \<mapsto> [0]],
             sparse_objects =
               [3 \<mapsto> \<lparr>o_indexesPositionLength = 2, o_activeIndexesLength = 1, o_nbActive = 1,
                       p_indexesPosition = 0, p_activeIndexes = 1, p_values = 2\<rparr>,
                7 \<mapsto> \<lparr>o_indexesPositionLength = 1, o_activeIndexesLength = 1, o_nbActive = 0,
                       p_indexesPosition = 4, p_activeIndexes = 5, p_values = 6\<rparr>],
             dense_objects = [10 \<mapsto> \<lparr>o_capacity = 2, p_data = 8\<rparr>,
                              11 \<mapsto> \<lparr>o_capacity = 1, p_data = 9\<rparr>],
             lim = 12\<rparr>"
  let ?S = "\<lparr>indexesPositionLength = 2, activeIndexesLength = 1, nbActive = 1,
             indexesPosition = [- 1, 0], activeIndexes = [1], values = [5::int]\<rparr>"
  let ?D = "\<lparr>capacity = 2, data = [1::int, 2]\<rparr>"
  have inv: "sparse_inv ?S" by code_simp
  have s1: "load_sparse ?M 3 = Inr ?S \<and> sparse_inv ?S \<and> sparse_allocated ?M 3 \<and>
            nbActive ?S + 1 \<le> 715827882"
    using inv by (simp add: load_sparse_def sparse_allocated_def)
  have s2: "load_sparse ?M 3 = Inr ?S \<and> sparse_inv ?S \<and> sparse_allocated ?M 3 \<and>
            nbActive ?S + 1 \<le> 715827882 \<and> sparse_separate ?M 7 3"
    using s1 by (simp add: sparse_separate_def)
  have d1: "load_dense ?M 10 = Inr ?D \<and> capacity ?D = int (length (data ?D)) \<and>
            dense_allocated ?M 10"
    by (simp add: load_dense_def dense_allocated_def)
  have d2: "load_dense ?M 10 = Inr ?D \<and> capacity ?D = int (length (data ?D)) \<and>
            dense_allocated ?M 10 \<and> dense_separate ?M 11 10"
    using d1 by (simp add: dense_separate_def)
  have g: "mem_getEntry ?M 3 1 = Inr 5"
    by (simp add: mem_getEntry_def load_sparse_def getEntry_def rd_def)
  have a: "mem_dense_at ?M 10 0 = Inr 1"
    by (simp add: mem_dense_at_def load_dense_def rd_def)
  note T = vector_copies_are_deep[where m = ?M and p = 3 and s = ?S and this = 7
              and junkI = "\<lambda>_. 0" and junkV = "\<lambda>_. 0" and dp = 10 and dv = ?D and dthis = 11]
  have dimS: "dimension ?S = 2" and capD: "capacity ?D = 2" by (simp_all add: dimension_def)
  note T1 = T[THEN conjunct1, THEN mp, OF s1]
   and T2 = T[THEN conjunct2, THEN conjunct1, THEN mp, OF s2]
   and T3 = T[THEN conjunct2, THEN conjunct2, THEN conjunct1, THEN mp, OF d1]
   and T4 = T[THEN conjunct2, THEN conjunct2, THEN conjunct2, THEN mp, OF d2]
  from T1 obtain q m' where p1: "SparseVector_copy ?M 3 (\<lambda>_. 0) (\<lambda>_. 0) = Inr (q, m')"
    and p1g: "\<And>j. 0 \<le> j \<and> j < 2 \<Longrightarrow> mem_getEntry m' q j = mem_getEntry ?M 3 j"
    and p1s: "\<And>k v. 0 \<le> k \<and> k < 2 \<Longrightarrow>
                \<exists>m''. mem_setEntry m' q k v = Inr m'' \<and>
                      (\<forall>j. mem_getEntry m'' 3 j = mem_getEntry ?M 3 j)"
    unfolding dimS by blast
  have r1: "\<exists>q m'. SparseVector_copy ?M 3 (\<lambda>_. 0) (\<lambda>_. 0) = Inr (q, m') \<and>
          mem_getEntry m' q 1 = Inr 5 \<and>
          (\<exists>m''. mem_setEntry m' q 1 0 = Inr m'' \<and> mem_getEntry m'' 3 1 = Inr 5)"
    using p1 p1g[of 1] p1s[of 1 0] g by auto
  from T2 obtain n' where p2: "SparseVector_assign ?M 7 3 (\<lambda>_. 0) (\<lambda>_. 0) = Inr n'"
    and p2s: "\<And>k v. 0 \<le> k \<and> k < 2 \<Longrightarrow>
                \<exists>m''. mem_setEntry n' 7 k v = Inr m'' \<and>
                      (\<forall>j. mem_getEntry m'' 3 j = mem_getEntry ?M 3 j)"
    unfolding dimS by blast
  have r2: "\<exists>m'. SparseVector_assign ?M 7 3 (\<lambda>_. 0) (\<lambda>_. 0) = Inr m' \<and>
          (\<exists>m''. mem_setEntry m' 7 1 9 = Inr m'' \<and> mem_getEntry m'' 3 1 = Inr 5)"
    using p2 p2s[of 1 9] g by auto
  from T3 obtain dq dm where p3: "DenseVector_copy ?M 10 (\<lambda>_. 0) = Inr (dq, dm)"
    and p3s: "\<And>k x. 0 \<le> k \<and> k < 2 \<Longrightarrow>
                \<exists>m''. mem_dense_put dm dq k x = Inr m'' \<and>
                      (\<forall>j. mem_dense_at m'' 10 j = mem_dense_at ?M 10 j)"
    unfolding capD by blast
  have r3: "\<exists>q m'. DenseVector_copy ?M 10 (\<lambda>_. 0) = Inr (q, m') \<and>
          (\<exists>m''. mem_dense_put m' q 0 7 = Inr m'' \<and> mem_dense_at m'' 10 0 = Inr 1)"
    using p3 p3s[of 0 7] a by auto
  from T4 obtain dn where p4: "DenseVector_assign ?M 11 10 (\<lambda>_. 0) = Inr dn"
    and p4s: "\<And>k x. 0 \<le> k \<and> k < 2 \<Longrightarrow>
                \<exists>m''. mem_dense_put dn 11 k x = Inr m'' \<and>
                      (\<forall>j. mem_dense_at m'' 10 j = mem_dense_at ?M 10 j)"
    unfolding capD by blast
  have r4: "\<exists>m'. DenseVector_assign ?M 11 10 (\<lambda>_. 0) = Inr m' \<and>
          (\<exists>m''. mem_dense_put m' 11 0 7 = Inr m'' \<and> mem_dense_at m'' 10 0 = Inr 1)"
    using p4 p4s[of 0 7] a by auto
  show ?thesis
    unfolding Let_def
    by (intro conjI s2[THEN conjunct1] s2[THEN conjunct2, THEN conjunct1]
          s2[THEN conjunct2, THEN conjunct2, THEN conjunct1]
          s2[THEN conjunct2, THEN conjunct2, THEN conjunct2, THEN conjunct1]
          s2[THEN conjunct2, THEN conjunct2, THEN conjunct2, THEN conjunct2]
          d2[THEN conjunct1] d2[THEN conjunct2, THEN conjunct1]
          d2[THEN conjunct2, THEN conjunct2, THEN conjunct1]
          d2[THEN conjunct2, THEN conjunct2, THEN conjunct2]
          r1 r2 r3 r4)
qed

text \<open>
  C10. Sparse \<open>resurrect\<close> on a receiver with well-formed arrays, reading a sparse file
  of the receiver's dimension whose stored indexes lie in that dimension, the active
  count of the receiver and the stored count together being at most 715827882 (so that
  no \<^verbatim>\<open>allocate\<close> of the insertions overflows), returns normally
  and does not clear the receiver: the former active cells stay where they are, the stored
  pairs are appended behind them in file order, and \<open>nbActive\<close> grows by the stored
  count, so it equals the stored count only if the receiver had no active entry. If a
  stored index was already active in the receiver, then afterwards some active position
  \<open>p\<close> has \<open>indexesPosition[activeIndexes[p]] \<noteq> p\<close>.
\<close>

theorem resurrect_on_top_of_receiver:
  fixes r :: "'a::zero SparseVector" and rest :: "'a cell list"
  assumes "wf_arrays r"
      and "files d f = Some ([IntCell 1, IntCell (dimension r), IntCell (int (length is))]
                             @ map IntCell is @ map ValCell vs @ rest)"
      and "length vs = length is"
      and "\<forall>i\<in>set is. 0 \<le> i \<and> i < dimension r"
      and "nbActive r + int (length is) \<le> 715827882"
  shows "\<exists>r'. SparseVector_resurrect r f d = Inr r' \<and>
           nbActive r' = nbActive r + int (length is) \<and>
           (nbActive r' = int (length is) \<longleftrightarrow> nbActive r = 0) \<and>
           (\<forall>i<nat (nbActive r). activeIndexes r' ! i = activeIndexes r ! i \<and>
                                  values r' ! i = values r ! i) \<and>
           (\<forall>i<length is. activeIndexes r' ! (nat (nbActive r) + i) = is ! i \<and>
                           values r' ! (nat (nbActive r) + i) = vs ! i) \<and>
           ((\<exists>p<nat (nbActive r). activeIndexes r ! p \<in> set is) \<longrightarrow>
            (\<exists>p<nat (nbActive r'). indexesPosition r' ! nat (activeIndexes r' ! p) \<noteq> int p))"
proof -
  have fl: "files d f = Some ([IntCell 1, IntCell (indexesPositionLength r),
                               IntCell (int (length is))]
                              @ map IntCell is @ map ValCell vs @ rest)"
    using assms(2) by (simp add: dimension_def)
  have rng: "\<forall>i<length is. 0 \<le> is ! i \<and> is ! i < indexesPositionLength r"
    using assms(4) by (simp add: dimension_def)
  obtain r' where run: "SparseVector_resurrect r f d = Inr r'"
    and nb': "nbActive r' = nbActive r + int (length is)"
    and old: "\<forall>i<nat (nbActive r). activeIndexes r' ! i = activeIndexes r ! i \<and>
                                  values r' ! i = values r ! i"
    and new: "\<forall>i<length is. activeIndexes r' ! (nat (nbActive r) + i) = is ! i \<and>
                           values r' ! (nat (nbActive r) + i) = vs ! i"
    and pos: "\<And>i. i < length is \<Longrightarrow> \<exists>i'<length is. is ! i' = is ! i \<and>
              indexesPosition r' ! nat (is ! i) = nbActive r + int i'"
    using SparseVector_resurrect_content[OF assms(1) fl assms(3) rng assms(5)] by blast
  have nb0: "0 \<le> nbActive r" using assms(1) by (simp add: wf_arrays_def)
  have broken: "\<exists>p<nat (nbActive r'). indexesPosition r' ! nat (activeIndexes r' ! p) \<noteq> int p"
    if ex: "\<exists>p<nat (nbActive r). activeIndexes r ! p \<in> set is"
  proof -
    obtain p where p: "p < nat (nbActive r)" and mem: "activeIndexes r ! p \<in> set is"
      using ex by blast
    obtain i where i: "i < length is" and e: "is ! i = activeIndexes r ! p"
      using mem by (auto simp: in_set_conv_nth)
    obtain i' where "indexesPosition r' ! nat (is ! i) = nbActive r + int i'"
      using pos[OF i] by blast
    then have "indexesPosition r' ! nat (activeIndexes r ! p) \<noteq> int p"
      using p e by simp
    moreover have "activeIndexes r' ! p = activeIndexes r ! p" using old p by simp
    moreover have "p < nat (nbActive r')" using p nb' by simp
    ultimately show ?thesis by auto
  qed
  have "nbActive r' = int (length is) \<longleftrightarrow> nbActive r = 0" using nb' by simp
  with run nb' old new broken show ?thesis by blast
qed

theorem resurrect_on_top_of_receiver_witness:
  "wf_arrays \<lparr>indexesPositionLength = 2, activeIndexesLength = 1, nbActive = 1,
              indexesPosition = [0, - 1], activeIndexes = [0], values = [5::int]\<rparr>
   \<and> nbActive \<lparr>indexesPositionLength = 2, activeIndexesLength = 1, nbActive = 1,
              indexesPosition = [0, - 1], activeIndexes = [0], values = [5::int]\<rparr>
       + int (length [0::int]) \<le> 715827882
   \<and> SparseVector_resurrect
        \<lparr>indexesPositionLength = 2, activeIndexesLength = 1, nbActive = 1,
         indexesPosition = [0, - 1], activeIndexes = [0], values = [5::int]\<rparr>
        ''w''
        \<lparr>files = [''w'' \<mapsto> [IntCell 1, IntCell 2, IntCell 1, IntCell 0, ValCell 9]],
         writable = (\<lambda>_. True)\<rparr>
     = Inr \<lparr>indexesPositionLength = 2, activeIndexesLength = 4, nbActive = 2,
            indexesPosition = [1, - 1], activeIndexes = [0, 0, 0, 0], values = [5::int, 9, 0, 0]\<rparr>
   \<and> indexesPosition \<lparr>indexesPositionLength = 2, activeIndexesLength = 4, nbActive = 2,
            indexesPosition = [1, - 1], activeIndexes = [0, 0, 0, 0], values = [5::int, 9, 0, 0]\<rparr>
       ! nat (activeIndexes \<lparr>indexesPositionLength = 2, activeIndexesLength = 4, nbActive = 2,
            indexesPosition = [1, - 1], activeIndexes = [0, 0, 0, 0], values = [5::int, 9, 0, 0]\<rparr> ! 0)
       \<noteq> 0"
proof -
  let ?r = "\<lparr>indexesPositionLength = 2, activeIndexesLength = 1, nbActive = 1,
              indexesPosition = [0, - 1], activeIndexes = [0], values = [5::int]\<rparr>"
  let ?d = "\<lparr>files = [''w'' \<mapsto> [IntCell 1, IntCell 2, IntCell 1, IntCell 0, ValCell (9::int)]],
             writable = (\<lambda>_. True)\<rparr>"
  have h1: "wf_arrays ?r" by (simp add: wf_arrays_def)
  have h2: "files ?d ''w'' = Some ([IntCell 1, IntCell (dimension ?r), IntCell (int (length [0::int]))]
                             @ map IntCell [0] @ map ValCell [9] @ [])"
    by (simp add: dimension_def)
  have h3: "length [9::int] = length [0::int]" by simp
  have h4: "\<forall>i\<in>set [0::int]. 0 \<le> i \<and> i < dimension ?r" by (simp add: dimension_def)
  have h5: "nbActive ?r + int (length [0::int]) \<le> 715827882" by simp
  have e: "SparseVector_resurrect ?r ''w'' ?d
     = Inr \<lparr>indexesPositionLength = 2, activeIndexesLength = 4, nbActive = 2,
            indexesPosition = [1, - 1], activeIndexes = [0, 0, 0, 0], values = [5::int, 9, 0, 0]\<rparr>"
    by code_simp
  show ?thesis
    using resurrect_on_top_of_receiver[OF h1 h2 h3 h4 h5] h1 e by simp
qed
end
